theory Spec2Isabelle
  imports Main "HOL-Library.Word"
begin

section \<open>Text, character classes and regular-expression substitution\<close>

text \<open>
  The program \<^verbatim>\<open>scripts/glsl_processor.py\<close> is a pipeline of text
  rewrites over Python \<^verbatim>\<open>str\<close> values.  A text is modelled as a
  \<^typ>\<open>string\<close>: one \<^typ>\<open>char\<close> is one code point, and the model
  covers the code points \<open>0 .. 255\<close>.  The character classes below are the
  ones of Python 3 on that range: \<^verbatim>\<open>str.isspace\<close> (used by
  \<^verbatim>\<open>strip\<close>, \<^verbatim>\<open>lstrip\<close> and the pattern class
  \<^verbatim>\<open>\s\<close>), the line boundaries of \<^verbatim>\<open>str.splitlines\<close>,
  and the pattern classes \<^verbatim>\<open>\d\<close>, \<^verbatim>\<open>\w\<close> and
  \<^verbatim>\<open>[ \t]\<close>.
\<close>

definition NL :: char where "NL = CHR 0x0A"
definition CR :: char where "CR = CHR 0x0D"
definition TAB :: char where "TAB = CHR 0x09"
definition SP :: char where "SP = CHR 0x20"

definition is_space :: "char \<Rightarrow> bool" where
  "is_space c \<longleftrightarrow> c \<in> {CHR 0x09, CHR 0x0A, CHR 0x0B, CHR 0x0C, CHR 0x0D,
     CHR 0x1C, CHR 0x1D, CHR 0x1E, CHR 0x1F, CHR 0x20, CHR 0x85, CHR 0xA0}"

definition is_linebreak :: "char \<Rightarrow> bool" where
  "is_linebreak c \<longleftrightarrow> c \<in> {CHR 0x0A, CHR 0x0B, CHR 0x0C, CHR 0x0D,
     CHR 0x1C, CHR 0x1D, CHR 0x1E, CHR 0x85}"

definition is_blank :: "char \<Rightarrow> bool" where
  "is_blank c \<longleftrightarrow> c = SP \<or> c = TAB"

definition is_digit :: "char \<Rightarrow> bool" where
  "is_digit c \<longleftrightarrow> (48::nat) \<le> of_char c \<and> of_char c \<le> (57::nat)"

definition is_word :: "char \<Rightarrow> bool" where
  "is_word c \<longleftrightarrow> (let n = (of_char c :: nat) in
     (48 \<le> n \<and> n \<le> 57) \<or> (65 \<le> n \<and> n \<le> 90) \<or> n = 95 \<or> (97 \<le> n \<and> n \<le> 122) \<or>
     n \<in> {170, 178, 179, 181, 185, 186, 188, 189, 190} \<or>
     (192 \<le> n \<and> n \<le> 214) \<or> (216 \<le> n \<and> n \<le> 246) \<or> (248 \<le> n \<and> n \<le> 255))"

text \<open>
  \<^verbatim>\<open>re.sub(pattern, repl, text)\<close> scans the text from left to right.  At each
  position it tries to match the pattern; on success the matched text is replaced
  and the scan resumes behind the match, otherwise the character at the position is
  copied and the scan moves one character on.  A pattern is given here by its
  matcher: a function of the character before the position (\<open>None\<close> at the start
  of the text; only \<^verbatim>\<open>^\<close> and \<^verbatim>\<open>\b\<close> look at it) and of the text from
  the position on, which returns the replacement and the text behind the match.
  No pattern of the program matches the empty string, so a match always consumes
  at least one character; the guard \<open>length rest < length s\<close> records that.
\<close>

type_synonym matcher = "char option \<Rightarrow> string \<Rightarrow> (string \<times> string) option"

definition last_matched :: "string \<Rightarrow> string \<Rightarrow> char option" where
  "last_matched s rest = (case take (length s - length rest) s of
      [] \<Rightarrow> None | x # xs \<Rightarrow> Some (last (x # xs)))"

function re_sub :: "matcher \<Rightarrow> char option \<Rightarrow> string \<Rightarrow> string" where
  "re_sub m prev [] = []"
| "re_sub m prev (c # cs) =
     (case m prev (c # cs) of
        None \<Rightarrow> c # re_sub m (Some c) cs
      | Some (rep, rest) \<Rightarrow>
          if length rest < length (c # cs)
          then rep @ re_sub m (last_matched (c # cs) rest) rest
          else c # re_sub m (Some c) cs)"
  by pat_completeness auto
termination
  by (relation "measure (\<lambda>(m, prev, s). length s)") auto

text \<open>\<^verbatim>\<open>\b\<close>: exactly one of the characters before and at the position is a word character.\<close>

definition word_boundary :: "char option \<Rightarrow> string \<Rightarrow> bool" where
  "word_boundary prev s \<longleftrightarrow>
     (case prev of None \<Rightarrow> False | Some p \<Rightarrow> is_word p) \<noteq>
     (case s of [] \<Rightarrow> False | c # _ \<Rightarrow> is_word c)"

section \<open>Literal optimizer\<close>

text \<open>
  \<^verbatim>\<open>\b(\d+)\.0+(?!\d)\<close>, replaced by \<^verbatim>\<open>\1.\<close>.  The greedy \<^verbatim>\<open>\d+\<close>
  takes the whole run of digits; a shorter run is followed by a digit, not by the
  point, so backtracking finds nothing more.  Likewise \<^verbatim>\<open>0+\<close> takes the whole
  run of zeros, and a shorter run is followed by the digit \<open>0\<close>, which the
  lookahead refuses.
\<close>

definition m_trailing_zeros :: matcher where
  "m_trailing_zeros prev s =
     (if \<not> word_boundary prev s then None
      else let ds = takeWhile is_digit s; r1 = dropWhile is_digit s in
        if ds = [] then None
        else case r1 of
          [] \<Rightarrow> None
        | p # r2 \<Rightarrow>
            if p \<noteq> CHR ''.'' then None
            else let zs = takeWhile (\<lambda>c. c = CHR ''0'') r2;
                     r3 = dropWhile (\<lambda>c. c = CHR ''0'') r2 in
              if zs = [] then None
              else if (case r3 of [] \<Rightarrow> False | d # _ \<Rightarrow> is_digit d) then None
              else Some (ds @ ''.'', r3))"

text \<open>
  \<^verbatim>\<open>\b0\.([1-9]\d*)\b\<close>, replaced by \<^verbatim>\<open>.\1\<close>.  The greedy \<^verbatim>\<open>\d*\<close>
  takes the whole run of digits; behind a shorter run there is a digit on both
  sides, so no word boundary.
\<close>

definition m_leading_zero :: matcher where
  "m_leading_zero prev s =
     (if \<not> word_boundary prev s then None
      else case s of
        z # p # d # r \<Rightarrow>
          if z = CHR ''0'' \<and> p = CHR ''.'' \<and> is_digit d \<and> d \<noteq> CHR ''0''
          then let ds = takeWhile is_digit r; r' = dropWhile is_digit r in
            if word_boundary (Some (last (d # ds))) r' then Some (CHR ''.'' # d # ds, r')
            else None
          else None
      | _ \<Rightarrow> None)"

definition optimize_float_literals :: "string \<Rightarrow> string" where
  "optimize_float_literals shader_content =
     (let shader_content = re_sub m_trailing_zeros None shader_content;
          shader_content = re_sub m_leading_zero None shader_content
      in shader_content)"

section \<open>Comment stripper\<close>

text \<open>
  \<^verbatim>\<open>/\*.*?\*/\<close> with \<^verbatim>\<open>re.DOTALL\<close>, replaced by the empty string.  Behind
  the opening \<^verbatim>\<open>/*\<close> the lazy \<^verbatim>\<open>.*?\<close> grows one character at a time (any
  character, newlines too) until \<^verbatim>\<open>*/\<close> follows; \<open>find_close\<close> returns the
  text behind that first \<^verbatim>\<open>*/\<close>, or \<open>None\<close> when there is none and the
  match fails.
\<close>

fun find_close :: "string \<Rightarrow> string option" where
  "find_close (c # d # r) =
     (if c = CHR ''*'' \<and> d = CHR ''/'' then Some r else find_close (d # r))"
| "find_close _ = None"

definition m_block_comment :: matcher where
  "m_block_comment prev s =
     (case s of
        a # b # r \<Rightarrow>
          if a = CHR ''/'' \<and> b = CHR ''*''
          then (case find_close r of None \<Rightarrow> None | Some rest \<Rightarrow> Some ([], rest))
          else None
      | _ \<Rightarrow> None)"

text \<open>
  \<^verbatim>\<open>//.*?(?=\n|$)\<close>, replaced by the empty string.  Without
  \<^verbatim>\<open>re.DOTALL\<close> the dot matches every character but the newline, so the lazy
  \<^verbatim>\<open>.*?\<close> stops in front of the first newline or at the end of the text, the
  two places where the lookahead holds.
\<close>

definition m_line_comment :: matcher where
  "m_line_comment prev s =
     (case s of
        a # b # r \<Rightarrow>
          if a = CHR ''/'' \<and> b = CHR ''/''
          then Some ([], dropWhile (\<lambda>c. c \<noteq> NL) r)
          else None
      | _ \<Rightarrow> None)"

definition remove_comments :: "string \<Rightarrow> string" where
  "remove_comments shader_content =
     (let shader_content = re_sub m_block_comment None shader_content;
          shader_content = re_sub m_line_comment None shader_content
      in shader_content)"

section \<open>Whitespace compactor\<close>

text \<open>
  \<^verbatim>\<open>str.splitlines()\<close>: the text is cut at every line boundary, the pair
  carriage return, line feed counting as one boundary; the boundaries are not
  kept, and a text that ends with a boundary has no empty last line.
\<close>

fun splitlines_from :: "string \<Rightarrow> string \<Rightarrow> string list" where
  "splitlines_from cur [] = (if cur = [] then [] else [cur])"
| "splitlines_from cur [c] = (if is_linebreak c then [cur] else [cur @ [c]])"
| "splitlines_from cur (c # d # cs) =
     (if c = CR \<and> d = NL then cur # splitlines_from [] cs
      else if is_linebreak c then cur # splitlines_from [] (d # cs)
      else splitlines_from (cur @ [c]) (d # cs))"

definition splitlines :: "string \<Rightarrow> string list" where
  "splitlines s = splitlines_from [] s"

definition py_lstrip :: "string \<Rightarrow> string" where
  "py_lstrip s = dropWhile is_space s"

definition py_strip :: "string \<Rightarrow> string" where
  "py_strip s = rev (dropWhile is_space (rev (dropWhile is_space s)))"

definition startswith_hash :: "string \<Rightarrow> bool" where
  "startswith_hash s = (case s of [] \<Rightarrow> False | c # _ \<Rightarrow> c = CHR ''#'')"

definition is_directive_line :: "string \<Rightarrow> bool" where
  "is_directive_line line = startswith_hash (py_lstrip line)"

text \<open>
  One turn of the loop of \<^verbatim>\<open>remove_newlines\<close> at index \<open>i\<close>: \<open>result\<close> is
  the list of pieces appended so far.  The two neighbours are read only behind
  their index guards, as in the source.
\<close>

definition newline_step :: "string list \<Rightarrow> string list \<Rightarrow> nat \<Rightarrow> string list" where
  "newline_step lines result i =
     (let line = lines ! i;
          is_directive = is_directive_line line;
          prev_directive = (i > 0 \<and> is_directive_line (lines ! (i - 1)));
          next_directive = (i < length lines - 1 \<and> is_directive_line (lines ! (i + 1)));
          result = (if i > 0 \<and> (is_directive \<or> prev_directive \<or> next_directive)
                    then result @ [[NL]] else result)
      in result @ [line])"

definition remove_newlines :: "string \<Rightarrow> string" where
  "remove_newlines shader_content =
     (let lines = filter (\<lambda>line. py_strip line \<noteq> []) (splitlines shader_content) in
      if lines = [] then []
      else concat (foldl (newline_step lines) [] [0..<length lines]))"

text \<open>\<^verbatim>\<open>str.split('\n')\<close> and \<^verbatim>\<open>'\n'.join\<close>.\<close>

fun split_from :: "string \<Rightarrow> string \<Rightarrow> string list" where
  "split_from cur [] = [cur]"
| "split_from cur (c # cs) =
     (if c = NL then cur # split_from [] cs else split_from (cur @ [c]) cs)"

definition split_nl :: "string \<Rightarrow> string list" where
  "split_nl s = split_from [] s"

fun join_nl :: "string list \<Rightarrow> string" where
  "join_nl [] = []"
| "join_nl [l] = l"
| "join_nl (l # l' # ls) = l @ NL # join_nl (l' # ls)"

definition symbols :: "char list" where
  "symbols = [CHR '','', CHR ''.'', CHR ''('', CHR '')'', CHR ''{'', CHR ''}'', CHR '';'', CHR '':'',
     CHR ''+'', CHR ''-'', CHR ''*'', CHR ''/'', CHR ''='', CHR ''<'', CHR ''>'',
     CHR ''!'', CHR ''?'', CHR ''|'', CHR ''&'']"

text \<open>
  \<^verbatim>\<open>^\s*#\<close> (no \<^verbatim>\<open>re.MULTILINE\<close>: only at the start of the text),
  replaced by \<^verbatim>\<open>#\<close>.  The greedy \<^verbatim>\<open>\s*\<close> takes the whole run of
  whitespace; a shorter run is followed by whitespace, not by \<^verbatim>\<open>#\<close>.
\<close>

definition m_leading_hash :: matcher where
  "m_leading_hash prev s =
     (if prev \<noteq> None then None
      else case dropWhile is_space s of
        [] \<Rightarrow> None
      | c # r \<Rightarrow> if c = CHR ''#'' then Some (''#'', r) else None)"

text \<open>\<^verbatim>\<open>[ \t]+\<close>, replaced by one space.\<close>

definition m_blanks :: matcher where
  "m_blanks prev s =
     (case s of
        [] \<Rightarrow> None
      | c # r \<Rightarrow> if is_blank c then Some ([SP], dropWhile is_blank r) else None)"

text \<open>
  \<^verbatim>\<open>[ \t]+X\<close> and \<^verbatim>\<open>X[ \t]+\<close> for an escaped symbol \<open>X\<close>, both
  replaced by \<open>X\<close>.  In the first the greedy run of blanks is the whole run: a
  shorter one is followed by a blank, and no symbol is a blank.
\<close>

definition m_blanks_before :: "char \<Rightarrow> matcher" where
  "m_blanks_before X prev s =
     (case s of
        [] \<Rightarrow> None
      | c # r \<Rightarrow>
          if is_blank c
          then (case dropWhile is_blank r of
                  [] \<Rightarrow> None
                | d # r' \<Rightarrow> if d = X then Some ([X], r') else None)
          else None)"

definition m_blanks_after :: "char \<Rightarrow> matcher" where
  "m_blanks_after X prev s =
     (case s of
        c # b # r \<Rightarrow>
          if c = X \<and> is_blank b then Some ([X], dropWhile is_blank r) else None
      | _ \<Rightarrow> None)"

definition strip_around :: "string \<Rightarrow> char \<Rightarrow> string" where
  "strip_around processed_line symbol =
     (let processed_line = re_sub (m_blanks_before symbol) None processed_line;
          processed_line = re_sub (m_blanks_after symbol) None processed_line
      in processed_line)"

definition normalize_line :: "string \<Rightarrow> string" where
  "normalize_line line =
     (if is_directive_line line
      then let line = re_sub m_leading_hash None line;
               line = re_sub m_blanks None line
           in line
      else let processed_line = foldl strip_around line symbols;
               processed_line = re_sub m_blanks None processed_line
           in processed_line)"

definition normalize_spaces :: "string \<Rightarrow> string" where
  "normalize_spaces shader_content = join_nl (map normalize_line (split_nl shader_content))"

section \<open>Include resolver\<close>

text \<open>
  The resolver reads files and asks \<^verbatim>\<open>pathlib\<close> for paths.  The file system,
  the library and the interpreter are the environment of the model.  A path is
  the text that \<^verbatim>\<open>str(path)\<close> gives.  \<open>files\<close> lists what is stored under
  each canonical path: a regular file that reads as text, a regular file whose
  read raises (no permission, bytes that are not UTF-8), or a directory; a path
  that is not listed does not exist.  \<open>path_parent\<close> is \<^verbatim>\<open>Path.parent\<close>.
  \<open>path_resolve base name\<close> is \<^verbatim>\<open>(base / name).resolve()\<close>, which returns a
  path or raises (\<^verbatim>\<open>ValueError\<close> for a name with a NUL character,
  \<^verbatim>\<open>RuntimeError\<close> for a loop of symbolic links).  \<open>stat_raises\<close> tells for
  which paths the question that \<^verbatim>\<open>Path.is_file()\<close> asks the operating
  system fails with an error other than that the file is not there (a name
  longer than the file system allows), so that \<^verbatim>\<open>is_file\<close> raises
  \<^verbatim>\<open>OSError\<close>.  \<open>max_depth\<close> is the number of includes inside includes for
  which the stack of the interpreter has room: a directive met that deep
  raises \<^verbatim>\<open>RecursionError\<close> in the first call it makes.  \<open>path_open\<close> gives
  the canonical path of the file that \<^verbatim>\<open>open(path)\<close> reaches, \<open>writable\<close>
  tells whether opening a path for writing succeeds, and \<open>zlib_compress\<close> is
  \<^verbatim>\<open>zlib.compress\<close>.
\<close>

type_synonym path = string
type_synonym bytes = "8 word list"

datatype node = File string | Unreadable | Directory

datatype error =
  ReadError path | StructError | ValueError string | RuntimeError string | OSError path |
  RecursionError

record env =
  files :: "(path \<times> node) list"
  path_parent :: "path \<Rightarrow> path"
  path_resolve :: "path \<Rightarrow> string \<Rightarrow> error + path"
  stat_raises :: "path \<Rightarrow> bool"
  max_depth :: nat
  path_open :: "path \<Rightarrow> path"
  writable :: "path \<Rightarrow> bool"
  zlib_compress :: "bytes \<Rightarrow> bytes"

text \<open>
  The state that one resolution threads through its calls: the include set
  (one Python \<^verbatim>\<open>set\<close> object shared by all recursive calls), the lines
  printed to the error stream, and the files read so far.
\<close>

record rstate =
  included_files :: "path set"
  err :: "string list"
  opened :: "path list"

text \<open>
  \<^verbatim>\<open>Path.is_file()\<close>: whether the path is that of a regular file, or the
  \<^verbatim>\<open>OSError\<close> that it lets through.
\<close>

definition is_file :: "env \<Rightarrow> path \<Rightarrow> error + bool" where
  "is_file e p =
     (if stat_raises e p then Inl (OSError p)
      else Inr (case map_of (files e) p of
                  Some (File content) \<Rightarrow> True | Some Unreadable \<Rightarrow> True | _ \<Rightarrow> False))"

text \<open>\<^verbatim>\<open>Path.read_text(encoding="utf-8")\<close>: the text of the file, or what the read raises.\<close>

definition read_text :: "env \<Rightarrow> path \<Rightarrow> error + string" where
  "read_text e p =
     (case map_of (files e) p of Some (File content) \<Rightarrow> Inr content | _ \<Rightarrow> Inl (ReadError p))"

fun strip_prefix :: "string \<Rightarrow> string \<Rightarrow> string option" where
  "strip_prefix [] s = Some s"
| "strip_prefix (p # ps) [] = None"
| "strip_prefix (p # ps) (c # cs) = (if p = c then strip_prefix ps cs else None)"

text \<open>
  \<^verbatim>\<open>^\s*#include\s+"([^"]+)"\<close> with \<^verbatim>\<open>re.MULTILINE\<close>: \<^verbatim>\<open>^\<close> holds at
  the start of the text and behind every line feed.  Each greedy run is the
  whole run: a shorter run of whitespace is followed by whitespace, and a
  shorter run of characters other than the quote is followed by such a
  character, never by what the pattern wants next.  The matcher returns group 1
  and the text behind the closing quote.
\<close>

definition m_include :: matcher where
  "m_include prev s =
     (if \<not> (prev = None \<or> prev = Some NL) then None
      else (case strip_prefix ''#include'' (dropWhile is_space s) of
        None \<Rightarrow> None
      | Some r1 \<Rightarrow>
          if takeWhile is_space r1 = [] then None
          else (case dropWhile is_space r1 of
            [] \<Rightarrow> None
          | q # r2 \<Rightarrow>
              if q \<noteq> CHR 0x22 \<or> takeWhile (\<lambda>c. c \<noteq> CHR 0x22) r2 = [] then None
              else (case dropWhile (\<lambda>c. c \<noteq> CHR 0x22) r2 of
                [] \<Rightarrow> None
              | q' # rest \<Rightarrow> Some (takeWhile (\<lambda>c. c \<noteq> CHR 0x22) r2, rest)))))"

text \<open>
  The leftmost match of a pattern from a position on: the text in front of the
  match, what the matcher returns, and the text behind the match.
\<close>

fun re_search :: "matcher \<Rightarrow> char option \<Rightarrow> string \<Rightarrow> (string \<times> string \<times> string) option" where
  "re_search m prev [] = None"
| "re_search m prev (c # cs) =
     (case m prev (c # cs) of
        Some (g, rest) \<Rightarrow> Some ([], g, rest)
      | None \<Rightarrow>
          (case re_search m (Some c) cs of
             None \<Rightarrow> None
           | Some (pre, g, rest) \<Rightarrow> Some (c # pre, g, rest)))"

lemma strip_prefix_length: "strip_prefix p s = Some r \<Longrightarrow> length r \<le> length s"
  by (induction p s rule: strip_prefix.induct) (auto split: if_splits)

lemma m_include_shorter:
  assumes "m_include prev s = Some (g, rest)"
  shows "length rest < length s"
proof -
  from assms obtain r1 q r2 q' where
    r1: "strip_prefix ''#include'' (dropWhile is_space s) = Some r1" and
    r2: "dropWhile is_space r1 = q # r2" and
    rest: "dropWhile (\<lambda>c. c \<noteq> CHR 0x22) r2 = q' # rest"
    by (auto simp: m_include_def split: if_splits option.splits list.splits)
  have "length (q' # rest) \<le> length r2"
    using length_dropWhile_le [of "\<lambda>c. c \<noteq> CHR 0x22" r2] rest by simp
  moreover have "length (q # r2) \<le> length r1"
    using length_dropWhile_le [of is_space r1] r2 by simp
  moreover have "length r1 \<le> length (dropWhile is_space s)"
    using r1 by (rule strip_prefix_length)
  moreover have "length (dropWhile is_space s) \<le> length s"
    by (rule length_dropWhile_le)
  ultimately show ?thesis by simp
qed

lemma re_search_shorter:
  "re_search m_include prev s = Some (pre, g, rest) \<Longrightarrow> length rest < length s"
proof (induction s arbitrary: prev pre)
  case Nil
  then show ?case by simp
next
  case (Cons c cs)
  show ?case
  proof (cases "m_include prev (c # cs)")
    case None
    with Cons.prems obtain pre' where "re_search m_include (Some c) cs = Some (pre', g, rest)"
      by (auto split: option.splits)
    from Cons.IH [OF this] show ?thesis by simp
  next
    case (Some a)
    with Cons.prems have "m_include prev (c # cs) = Some (g, rest)"
      by (cases a) auto
    then show ?thesis by (rule m_include_shorter)
  qed
qed

text \<open>
  \<^verbatim>\<open>include_pattern.sub(replacer, shader_content)\<close> from a position of the
  text on, with the body of \<^verbatim>\<open>replacer\<close> in place: resolve the path, look
  it up in the include set, ask whether it is a file, add it to the include
  set, read it, resolve its text.  Nothing in the source catches what these
  steps raise, so an exception ends the resolution.  \<open>depth\<close> counts the
  includes that the call is inside of, and \<open>prev\<close> is the character before the
  position; the call of \<^verbatim>\<open>process_includes\<close> starts with \<open>None\<close>, and
  behind a match the scan goes on behind its closing quote.  The result is the
  text, or the exception raised, together with the state.
\<close>

definition then_text ::
  "(string \<Rightarrow> string) \<Rightarrow> (error + string) \<times> rstate \<Rightarrow> (error + string) \<times> rstate" where
  "then_text f res = (case res of (Inl x, st) \<Rightarrow> (Inl x, st) | (Inr out, st) \<Rightarrow> (Inr (f out), st))"

function process_from ::
  "env \<Rightarrow> nat \<Rightarrow> char option \<Rightarrow> string \<Rightarrow> path \<Rightarrow> rstate \<Rightarrow> (error + string) \<times> rstate" where
  "process_from e depth prev text base_path st =
     (case re_search m_include prev text of
        None \<Rightarrow> (Inr text, st)
      | Some (pre, name, rest) \<Rightarrow>
         (let (r, st1) =
            (if max_depth e \<le> depth then (Inl RecursionError, st)
             else (case path_resolve e base_path name of
               Inl x \<Rightarrow> (Inl x, st)
             | Inr file_path \<Rightarrow>
                 if file_path \<in> included_files st then (Inr [], st)
                 else (case is_file e file_path of
                   Inl x \<Rightarrow> (Inl x, st)
                 | Inr found \<Rightarrow>
                     if \<not> found
                     then (Inr [], st\<lparr>err := err st @ [''Include not found: '' @ file_path]\<rparr>)
                     else (case read_text e file_path of
                       Inl x \<Rightarrow>
                         (Inl x,
                          st\<lparr>included_files := insert file_path (included_files st),
                             opened := opened st @ [file_path]\<rparr>)
                     | Inr content \<Rightarrow>
                         then_text (\<lambda>out. out @ [NL])
                           (process_from e (Suc depth) None content (path_parent e file_path)
                              (st\<lparr>included_files := insert file_path (included_files st),
                                  opened := opened st @ [file_path]\<rparr>))))))
          in (case r of
               Inl x \<Rightarrow> (Inl x, st1)
             | Inr rep \<Rightarrow>
                 then_text (\<lambda>out. pre @ rep @ out)
                   (process_from e depth (Some (CHR 0x22)) rest base_path st1))))"
  by pat_completeness auto

text \<open>
  A call that descends into a file is one include deeper, and no call is
  deeper than \<open>max_depth\<close>; the scan behind a match goes on at the same depth
  in a shorter text.  So the resolver returns on every file system, whatever
  includes what: a text, or the exception that ended it.
\<close>

termination process_from
proof (relation "measures [\<lambda>(e, depth, prev, text, base, st). max_depth e - depth,
                           \<lambda>(e, depth, prev, text, base, st). length text]", goal_cases)
  case 1
  show ?case by simp
next
  case (2 e depth prev tx base_path st x2 x y xa ya x2a x2b x2c)
  then have "max_depth e - Suc depth < max_depth e - depth" by arith
  then show ?case by simp
next
  case (3 e depth prev tx base_path st x2 x y xa ya xb xc yb x2a)
  from 3(1,2,3) have "re_search m_include prev tx = Some (x, xa, ya)" by simp
  then have "length ya < length tx" by (rule re_search_shorter)
  then show ?case by simp
qed

declare process_from.simps [simp del]

lemma snd_then_text: "snd (then_text f res) = snd res"
  by (simp add: then_text_def split: prod.splits sum.splits)

definition process_includes ::
  "env \<Rightarrow> string \<Rightarrow> path \<Rightarrow> rstate \<Rightarrow> (error + string) \<times> rstate" where
  "process_includes e shader_content base_path st =
     process_from e 0 None shader_content base_path st"


section \<open>Packager\<close>

text \<open>
  \<^verbatim>\<open>str.encode('utf-8')\<close> on the code points of the model: one byte below
  128, two bytes from 128 on.
\<close>

definition utf8_char :: "char \<Rightarrow> bytes" where
  "utf8_char c = (let n = (of_char c :: nat) in
     if n < 128 then [of_nat n] else [of_nat (192 + n div 64), of_nat (128 + n mod 64)])"

definition utf8_encode :: "string \<Rightarrow> bytes" where
  "utf8_encode s = concat (map utf8_char s)"

fun le_bytes :: "nat \<Rightarrow> nat \<Rightarrow> bytes" where
  "le_bytes 0 n = []"
| "le_bytes (Suc k) n = of_nat (n mod 256) # le_bytes k (n div 256)"

text \<open>\<^verbatim>\<open>struct.pack('<Q', n)\<close> raises \<^verbatim>\<open>struct.error\<close> when \<open>n\<close> does not fit 64 bits.\<close>

definition pack_Q :: "nat \<Rightarrow> error + bytes" where
  "pack_Q n = (if n < 2 ^ 64 then Inr (le_bytes 8 n) else Inl StructError)"

definition compress_shader :: "env \<Rightarrow> string \<Rightarrow> error + bytes" where
  "compress_shader e shader_content =
     (let shader_bytes = utf8_encode shader_content;
          uncompressed_size = length shader_bytes;
          shader_compressed = zlib_compress e shader_bytes
      in case pack_Q uncompressed_size of
           Inl x \<Rightarrow> Inl x
         | Inr header \<Rightarrow> Inr (header @ shader_compressed))"

text \<open>The number that a reader of the packaged output takes from little-endian bytes.\<close>

fun le_value :: "bytes \<Rightarrow> nat" where
  "le_value [] = 0"
| "le_value (b # bs) = unat b + 256 * le_value bs"

section \<open>Driver\<close>

datatype exn = SystemExit nat | Raised error

definition start :: rstate where
  "start = \<lparr>included_files = {}, err = [], opened = []\<rparr>"

text \<open>
  \<^verbatim>\<open>process_shader\<close>: the read of the top-level file, then the five passes.
  The message of the second handler carries the text of the exception, which
  is the operating system's; the model keeps the path in its place.
\<close>

definition process_shader :: "env \<Rightarrow> path \<Rightarrow> (exn + string) \<times> rstate" where
  "process_shader e filepath =
     (case map_of (files e) (path_open e filepath) of
        None \<Rightarrow>
          (Inl (SystemExit 1), start\<lparr>err := [''Error: File not found: '' @ filepath]\<rparr>)
      | Some (File shader_content) \<Rightarrow>
          (case process_includes e shader_content (path_parent e filepath)
                  (start\<lparr>opened := [path_open e filepath]\<rparr>) of
             (Inl x, st) \<Rightarrow> (Inl (Raised x), st)
           | (Inr shader_content, st) \<Rightarrow>
               (let shader_content = remove_comments shader_content;
                    shader_content = remove_newlines shader_content;
                    shader_content = normalize_spaces shader_content;
                    shader_content = optimize_float_literals shader_content
                in (Inr shader_content, st)))
      | Some _ \<Rightarrow>
          (Inl (SystemExit 1),
           start\<lparr>err := [''Error reading file: '' @ filepath],
                 opened := [path_open e filepath]\<rparr>))"

record args =
  shader_path :: string
  output_file :: "string option"
  compress :: bool

datatype payload = TextOut string | BytesOut bytes

text \<open>
  What one run of the program leaves behind: its exit status, the lines on the
  error stream, the text on the standard output, the file written, and the
  files read.
\<close>

record outcome =
  exit_status :: nat
  stderr_lines :: "string list"
  stdout_text :: string
  written :: "(path \<times> payload) option"
  files_read :: "path list"

text \<open>\<^verbatim>\<open>not args.output_file\<close> holds for \<^verbatim>\<open>None\<close> and for the empty string.\<close>

definition no_output_file :: "args \<Rightarrow> bool" where
  "no_output_file a = (case output_file a of None \<Rightarrow> True | Some f \<Rightarrow> f = [])"

definition write_output :: "env \<Rightarrow> args \<Rightarrow> payload \<Rightarrow> rstate \<Rightarrow> outcome" where
  "write_output e a formatted_shader st =
     (case output_file a of
        Some f \<Rightarrow>
          if f = [] then
            \<lparr>exit_status = 0, stderr_lines = err st,
             stdout_text = (case formatted_shader of TextOut t \<Rightarrow> t | BytesOut b \<Rightarrow> []),
             written = None, files_read = opened st\<rparr>
          else if writable e f then
            \<lparr>exit_status = 0, stderr_lines = err st, stdout_text = [],
             written = Some (f, formatted_shader), files_read = opened st\<rparr>
          else
            \<lparr>exit_status = 1, stderr_lines = err st @ [''Error writing to output: '' @ f],
             stdout_text = [], written = None, files_read = opened st\<rparr>
      | None \<Rightarrow>
          \<lparr>exit_status = 0, stderr_lines = err st,
           stdout_text = (case formatted_shader of TextOut t \<Rightarrow> t | BytesOut b \<Rightarrow> []),
           written = None, files_read = opened st\<rparr>)"

definition main :: "env \<Rightarrow> args \<Rightarrow> outcome" where
  "main e a =
     (if compress a \<and> no_output_file a then
        \<lparr>exit_status = 1,
         stderr_lines = [''Error: Cannot output compressed data to stdout. Please specify an output file.''],
         stdout_text = [], written = None, files_read = []\<rparr>
      else case process_shader e (shader_path a) of
        (Inl (SystemExit n), st) \<Rightarrow>
          \<lparr>exit_status = n, stderr_lines = err st, stdout_text = [],
           written = None, files_read = opened st\<rparr>
      | (Inl (Raised x), st) \<Rightarrow>
          \<lparr>exit_status = 1, stderr_lines = err st @ [''Traceback (most recent call last):''],
           stdout_text = [], written = None, files_read = opened st\<rparr>
      | (Inr formatted_shader, st) \<Rightarrow>
          if compress a then
            (case compress_shader e formatted_shader of
               Inl x \<Rightarrow>
                 \<lparr>exit_status = 1, stderr_lines = err st @ [''Traceback (most recent call last):''],
                  stdout_text = [], written = None, files_read = opened st\<rparr>
             | Inr packed \<Rightarrow> write_output e a (BytesOut packed) st)
          else write_output e a (TextOut formatted_shader) st)"

section \<open>Reference definitions for the comment stripper\<close>

text \<open>
  The contract of the comment stripper in its own words, to compare with the
  two substitutions of the source.  \<open>split_at a b s\<close> cuts \<open>s\<close> at the first
  place where \<open>a\<close> is followed by \<open>b\<close>.  A block comment runs from the first
  \<^verbatim>\<open>/*\<close> to the first \<^verbatim>\<open>*/\<close> behind it; a line comment runs from the
  first \<^verbatim>\<open>//\<close> up to, and without, the next line feed or the end of the
  text.  Each comment is cut out and the search goes on behind it.
\<close>

fun split_at :: "char \<Rightarrow> char \<Rightarrow> string \<Rightarrow> (string \<times> string) option" where
  "split_at a b (c # d # r) =
     (if c = a \<and> d = b then Some ([], r)
      else (case split_at a b (d # r) of
              None \<Rightarrow> None
            | Some (p, q) \<Rightarrow> Some (c # p, q)))"
| "split_at a b _ = None"

lemma split_at_shorter: "split_at a b s = Some (p, q) \<Longrightarrow> length q < length s"
  by (induction a b s arbitrary: p rule: split_at.induct)
     (fastforce split: if_splits option.splits)+

function spec_strip_block :: "string \<Rightarrow> string" where
  "spec_strip_block s =
     (case split_at (CHR ''/'') (CHR ''*'') s of
        None \<Rightarrow> s
      | Some (pre, r) \<Rightarrow>
          (case split_at (CHR ''*'') (CHR ''/'') r of
             None \<Rightarrow> s
           | Some (body, post) \<Rightarrow> pre @ spec_strip_block post))"
  by pat_completeness auto
termination
proof (relation "measure length", goal_cases)
  case 1
  show ?case by simp
next
  case (2 s x2 pre r x2a body post)
  then have "length r < length s" "length post < length r"
    using split_at_shorter by metis+
  then show ?case by simp
qed

function spec_strip_line :: "string \<Rightarrow> string" where
  "spec_strip_line s =
     (case split_at (CHR ''/'') (CHR ''/'') s of
        None \<Rightarrow> s
      | Some (pre, r) \<Rightarrow> pre @ spec_strip_line (dropWhile (\<lambda>c. c \<noteq> NL) r))"
  by pat_completeness auto
termination
proof (relation "measure length", goal_cases)
  case 1
  show ?case by simp
next
  case (2 s x2 pre r)
  then have "length r < length s"
    using split_at_shorter by metis
  moreover have "length (dropWhile (\<lambda>c. c \<noteq> NL) r) \<le> length r"
    by (rule length_dropWhile_le)
  ultimately show ?case by simp
qed

declare spec_strip_block.simps [simp del] spec_strip_line.simps [simp del]

section \<open>Reference definitions for the whitespace compactor\<close>

text \<open>
  The three kinds of substitution of \<^verbatim>\<open>normalize_spaces\<close>, written as one pass
  over the characters: a blank is dropped when the symbol follows its run of
  blanks (\<open>drop_before\<close>), when its run follows the symbol (\<open>drop_after\<close>, whose
  flag says that the run behind the symbol is being dropped), and a run of blanks
  becomes one space (\<open>squeeze\<close>, whose flag says that the space of the run is
  already written).  The lemmas below show that the substitutions of the source
  compute these functions.
\<close>

definition next_nonblank :: "string \<Rightarrow> char option" where
  "next_nonblank s = (case dropWhile is_blank s of [] \<Rightarrow> None | d # _ \<Rightarrow> Some d)"

fun drop_before :: "char \<Rightarrow> string \<Rightarrow> string" where
  "drop_before X [] = []"
| "drop_before X (c # cs) =
     (if is_blank c \<and> next_nonblank cs = Some X then drop_before X cs
      else c # drop_before X cs)"

fun drop_after :: "char \<Rightarrow> bool \<Rightarrow> string \<Rightarrow> string" where
  "drop_after X skip [] = []"
| "drop_after X skip (c # cs) =
     (if skip \<and> is_blank c then drop_after X True cs
      else c # drop_after X (c = X) cs)"

fun squeeze :: "bool \<Rightarrow> string \<Rightarrow> string" where
  "squeeze inrun [] = []"
| "squeeze inrun (c # cs) =
     (if is_blank c then (if inrun then squeeze True cs else SP # squeeze True cs)
      else c # squeeze False cs)"

text \<open>
  What a normalized line looks like: no blank in front of the symbol (the flag
  says that the character before the text is a blank), no blank behind it (the
  flag says that the character before the text is the symbol), no tabulator and
  no two spaces in a row (the flag says that the character before the text is a
  space).
\<close>

fun no_blank_before :: "char \<Rightarrow> bool \<Rightarrow> string \<Rightarrow> bool" where
  "no_blank_before X pb [] = True"
| "no_blank_before X pb (c # cs) = (\<not> (pb \<and> c = X) \<and> no_blank_before X (is_blank c) cs)"

fun no_blank_after :: "char \<Rightarrow> bool \<Rightarrow> string \<Rightarrow> bool" where
  "no_blank_after X px [] = True"
| "no_blank_after X px (c # cs) = (\<not> (px \<and> is_blank c) \<and> no_blank_after X (c = X) cs)"

fun squeezed :: "bool \<Rightarrow> string \<Rightarrow> bool" where
  "squeezed ps [] = True"
| "squeezed ps (c # cs) = (c \<noteq> TAB \<and> \<not> (ps \<and> c = SP) \<and> squeezed (c = SP) cs)"

text \<open>
  The lines that \<^verbatim>\<open>remove_newlines\<close> keeps, and its loop as a recursion over
  them: \<open>compact_rest pd ls\<close> is what the loop appends for the lines \<open>ls\<close> behind
  the first one, \<open>pd\<close> telling whether the line before them is a directive.
  \<open>groups_from cur pd ls\<close> is the same output cut at its separators, \<open>cur\<close>
  being the output line under construction.
\<close>

definition kept_lines :: "string \<Rightarrow> string list" where
  "kept_lines s = filter (\<lambda>line. py_strip line \<noteq> []) (splitlines s)"

definition next_is_directive :: "string list \<Rightarrow> bool" where
  "next_is_directive ls = (case ls of [] \<Rightarrow> False | n # _ \<Rightarrow> is_directive_line n)"

fun compact_rest :: "bool \<Rightarrow> string list \<Rightarrow> string" where
  "compact_rest pd [] = []"
| "compact_rest pd (l # ls) =
     (if is_directive_line l \<or> pd \<or> next_is_directive ls then NL # l else l)
     @ compact_rest (is_directive_line l) ls"

fun compact :: "string list \<Rightarrow> string" where
  "compact [] = []"
| "compact (l # ls) = l @ compact_rest (is_directive_line l) ls"

fun groups_from :: "string \<Rightarrow> bool \<Rightarrow> string list \<Rightarrow> string list" where
  "groups_from cur pd [] = [cur]"
| "groups_from cur pd (l # ls) =
     (if is_directive_line l \<or> pd \<or> next_is_directive ls
      then cur # groups_from l (is_directive_line l) ls
      else groups_from (cur @ l) (is_directive_line l) ls)"

text \<open>
  The separator rule in the words of the specification: in front of the kept
  line \<open>i\<close>, which is not the first one, stands a line feed when that line, the
  one before it or the one behind it is a directive, and nothing otherwise.
\<close>

definition separator :: "string list \<Rightarrow> nat \<Rightarrow> string" where
  "separator ls i =
     (if 0 < i \<and> (is_directive_line (ls ! i) \<or> is_directive_line (ls ! (i - 1)) \<or>
                  (i + 1 < length ls \<and> is_directive_line (ls ! (i + 1))))
      then [NL] else [])"

text \<open>
  \<open>all_separated pd ls\<close>: the loop puts a separator in front of every line of
  \<open>ls\<close>, \<open>pd\<close> telling whether the line before them is a directive.
\<close>

fun all_separated :: "bool \<Rightarrow> string list \<Rightarrow> bool" where
  "all_separated pd [] = True"
| "all_separated pd (l # ls) =
     ((is_directive_line l \<or> pd \<or> next_is_directive ls) \<and> all_separated (is_directive_line l) ls)"

section \<open>Reference definitions for the include resolver and the driver\<close>

text \<open>
  An environment to run the model in: one directory tree without links, every
  path absolute, include names that are plain file names.  There
  \<^verbatim>\<open>Path.parent\<close> cuts the last component off, \<^verbatim>\<open>(base / name).resolve()\<close>
  puts the name behind the directory and raises \<^verbatim>\<open>ValueError\<close> for a name
  with a NUL character, \<^verbatim>\<open>Path.is_file()\<close> raises \<^verbatim>\<open>OSError\<close> for a path
  with a component of more than 255 bytes, the stack has room for 332
  includes inside includes, and \<^verbatim>\<open>open\<close> reaches the file of that very
  path.  The compressor of the environment stands for \<^verbatim>\<open>zlib\<close> only in
  being invertible: it puts one byte in front.
\<close>

definition posix_parent :: "path \<Rightarrow> path" where
  "posix_parent p = rev (tl (dropWhile (\<lambda>c. c \<noteq> CHR ''/'') (rev p)))"

definition posix_join :: "path \<Rightarrow> string \<Rightarrow> path" where
  "posix_join base name = base @ ''/'' @ name"

definition posix_resolve :: "path \<Rightarrow> string \<Rightarrow> error + path" where
  "posix_resolve base name =
     (if CHR 0x00 \<in> set name then Inl (ValueError name) else Inr (posix_join base name))"

text \<open>
  Whether a component of the path, read from a position on with \<open>n\<close> bytes of
  the current component behind, has more than 255 bytes.
\<close>

fun too_long_from :: "nat \<Rightarrow> string \<Rightarrow> bool" where
  "too_long_from n [] = (255 < n)"
| "too_long_from n (c # cs) =
     (if c = CHR ''/'' then 255 < n \<or> too_long_from 0 cs
      else too_long_from (n + length (utf8_char c)) cs)"

definition posix_name_too_long :: "path \<Rightarrow> bool" where
  "posix_name_too_long p = too_long_from 0 p"

definition posix_env :: "(path \<times> node) list \<Rightarrow> env" where
  "posix_env fs = \<lparr>files = fs, path_parent = posix_parent, path_resolve = posix_resolve,
     stat_raises = posix_name_too_long, max_depth = 332,
     path_open = (\<lambda>p. p), writable = (\<lambda>p. True), zlib_compress = (\<lambda>b. 0x78 # b)\<rparr>"

text \<open>
  A shader that includes itself, and the same shader with the reference to
  itself replaced by the empty string.
\<close>

definition self_including :: string where
  "self_including = ''#include '' @ [CHR 0x22] @ ''a.glsl'' @ [CHR 0x22, NL] @ ''float x;''"

definition self_reference_removed :: string where
  "self_reference_removed = [NL] @ ''float x;''"





section \<open>The literal optimizer on the five literals\<close>

text \<open>
  C1 (as the specification states it, refuted): applied once, the literal
  optimizer would leave \<^verbatim>\<open>0.0\<close> unchanged.  The first rule takes the zero
  behind the point away like any other run of fractional zeros, so the result
  is \<^verbatim>\<open>0.\<close>.
\<close>

theorem literal_zero_not_unchanged:
  "optimize_float_literals ''0.0'' \<noteq> ''0.0''"
  by code_simp

text \<open>
  C1 (amended): applied once, the literal optimizer turns \<^verbatim>\<open>1.000\<close> into
  \<^verbatim>\<open>1.\<close>, \<^verbatim>\<open>0.5\<close> into \<^verbatim>\<open>.5\<close>, \<^verbatim>\<open>0.0\<close> into \<^verbatim>\<open>0.\<close>,
  \<^verbatim>\<open>10.00\<close> into \<^verbatim>\<open>10.\<close> and \<^verbatim>\<open>0.50\<close> into \<^verbatim>\<open>.50\<close>; the
  second rule never gives \<^verbatim>\<open>.0\<close>.
\<close>

theorem literal_examples:
  "optimize_float_literals ''1.000'' = ''1.'' \<and>
   optimize_float_literals ''0.5'' = ''.5'' \<and>
   optimize_float_literals ''0.0'' = ''0.'' \<and>
   optimize_float_literals ''10.00'' = ''10.'' \<and>
   optimize_float_literals ''0.50'' = ''.50''"
  by code_simp

section \<open>The comment stripper against its contract\<close>

lemma split_at_append: "split_at a b s = Some (p, q) \<Longrightarrow> s = p @ a # b # q"
  by (induction a b s arbitrary: p rule: split_at.induct)
     (fastforce split: if_splits option.splits)+

lemma split_at_None_tl: "split_at a b (c # s) = None \<Longrightarrow> split_at a b s = None"
  by (cases s) (auto split: if_splits option.splits)

lemma split_at_None_suffix: "split_at a b (xs @ s) = None \<Longrightarrow> split_at a b s = None"
  by (induction xs) (auto dest: split_at_None_tl)

lemma find_close_split: "find_close r = map_option snd (split_at (CHR ''*'') (CHR ''/'') r)"
  by (induction r rule: find_close.induct) (auto split: option.splits)

lemma spec_strip_block_unclosed:
  assumes "split_at (CHR ''*'') (CHR ''/'') r = None"
  shows "spec_strip_block (x # r) = x # r"
proof (cases "split_at (CHR ''/'') (CHR ''*'') (x # r)")
  case None
  then show ?thesis by (simp add: spec_strip_block.simps)
next
  case (Some a)
  obtain pre t where a: "a = (pre, t)" by (cases a)
  with Some have "x # r = pre @ CHR ''/'' # CHR ''*'' # t" by (simp add: split_at_append)
  then have "\<exists>ys. r = ys @ t" by (cases pre) auto
  then have "split_at (CHR ''*'') (CHR ''/'') t = None"
    using assms split_at_None_suffix by blast
  with Some a show ?thesis by (simp add: spec_strip_block.simps)
qed

lemma spec_strip_block_Cons:
  assumes "\<not> (\<exists>r. c = CHR ''/'' \<and> cs = CHR ''*'' # r)"
  shows "spec_strip_block (c # cs) = c # spec_strip_block cs"
proof (cases cs)
  case Nil
  then show ?thesis by (simp add: spec_strip_block.simps)
next
  case (Cons d r)
  with assms have "\<not> (c = CHR ''/'' \<and> d = CHR ''*'')" by simp
  then show ?thesis using Cons
    by (subst (1 2) spec_strip_block.simps) (auto split: option.splits)
qed

lemma re_sub_block: "re_sub m_block_comment prev s = spec_strip_block s"
proof (induction s arbitrary: prev rule: length_induct)
  case (1 s)
  show ?case
  proof (cases s)
    case Nil
    then show ?thesis by (simp add: spec_strip_block.simps)
  next
    case (Cons c cs)
    show ?thesis
    proof (cases "\<exists>r. c = CHR ''/'' \<and> cs = CHR ''*'' # r")
      case False
      then have "m_block_comment prev (c # cs) = None"
        by (auto simp: m_block_comment_def split: list.splits)
      then show ?thesis using 1 Cons False by (simp add: spec_strip_block_Cons)
    next
      case True
      then obtain r where r: "c = CHR ''/''" "cs = CHR ''*'' # r" by blast
      show ?thesis
      proof (cases "split_at (CHR ''*'') (CHR ''/'') r")
        case None
        then have "m_block_comment prev (c # cs) = None"
          using r by (simp add: m_block_comment_def find_close_split)
        moreover have "spec_strip_block cs = cs"
          using None r spec_strip_block_unclosed by simp
        moreover have "spec_strip_block (c # cs) = c # cs"
          using None r by (simp add: spec_strip_block.simps)
        ultimately show ?thesis using 1 Cons by simp
      next
        case (Some a)
        obtain body post where a: "a = (body, post)" by (cases a)
        have len: "length post < length s"
          using split_at_shorter [of "CHR ''*''" "CHR ''/''" r body post] Some a r Cons by simp
        have "m_block_comment prev (c # cs) = Some ([], post)"
          using r Some a by (simp add: m_block_comment_def find_close_split)
        then have "re_sub m_block_comment prev (c # cs) = spec_strip_block post"
          using 1 len Cons by simp
        moreover have "spec_strip_block (c # cs) = spec_strip_block post"
          using r Some a by (simp add: spec_strip_block.simps)
        ultimately show ?thesis using Cons by simp
      qed
    qed
  qed
qed

lemma re_sub_line: "re_sub m_line_comment prev s = spec_strip_line s"
proof (induction s arbitrary: prev rule: length_induct)
  case (1 s)
  show ?case
  proof (cases s)
    case Nil
    then show ?thesis by (simp add: spec_strip_line.simps)
  next
    case (Cons c cs)
    show ?thesis
    proof (cases "\<exists>r. c = CHR ''/'' \<and> cs = CHR ''/'' # r")
      case False
      then have "m_line_comment prev (c # cs) = None"
        by (auto simp: m_line_comment_def split: list.splits)
      moreover have "spec_strip_line (c # cs) = c # spec_strip_line cs"
      proof (cases cs)
        case Nil
        then show ?thesis by (simp add: spec_strip_line.simps)
      next
        case (Cons d r)
        with False have "\<not> (c = CHR ''/'' \<and> d = CHR ''/'')" by simp
        then show ?thesis using Cons
          by (subst (1 2) spec_strip_line.simps) (auto split: option.splits)
      qed
      ultimately show ?thesis using 1 Cons by simp
    next
      case True
      then obtain r where r: "c = CHR ''/''" "cs = CHR ''/'' # r" by blast
      define rest where "rest = dropWhile (\<lambda>c. c \<noteq> NL) r"
      have len: "length rest < length s"
        using length_dropWhile_le [of "\<lambda>c. c \<noteq> NL" r] r Cons by (simp add: rest_def)
      have "m_line_comment prev (c # cs) = Some ([], rest)"
        using r by (simp add: m_line_comment_def rest_def)
      then have "re_sub m_line_comment prev (c # cs) = spec_strip_line rest"
        using 1 len Cons by simp
      moreover have "spec_strip_line (c # cs) = spec_strip_line rest"
        using r by (simp add: spec_strip_line.simps rest_def)
      ultimately show ?thesis using Cons by simp
    qed
  qed
qed

text \<open>
  C8: the comment stripper first cuts out every block comment, from a
  \<^verbatim>\<open>/*\<close> to the first \<^verbatim>\<open>*/\<close> behind it, newlines included, and then, in
  the text that is left, every line comment, from a \<^verbatim>\<open>//\<close> up to the end of
  the line or of the text.
\<close>

theorem remove_comments_spec:
  "remove_comments s = spec_strip_line (spec_strip_block s)"
  by (simp add: remove_comments_def re_sub_block re_sub_line)



section \<open>The substitutions of the normalizer as single passes\<close>

lemma blank_simps [simp]: "is_blank SP" "is_blank TAB" "\<not> is_blank NL"
  by (simp_all add: is_blank_def SP_def TAB_def NL_def)

lemma blank_is_space: "is_blank c \<Longrightarrow> is_space c"
  by (auto simp: is_blank_def is_space_def SP_def TAB_def)

lemma next_nonblank_simps [simp]:
  "next_nonblank [] = None"
  "next_nonblank (c # cs) = (if is_blank c then next_nonblank cs else Some c)"
  by (simp_all add: next_nonblank_def)

lemma re_sub_None: "m prev (c # cs) = None \<Longrightarrow> re_sub m prev (c # cs) = c # re_sub m (Some c) cs"
  by simp

lemma re_sub_Some:
  "m prev (c # cs) = Some (rep, rest) \<Longrightarrow> length rest \<le> length cs \<Longrightarrow>
   re_sub m prev (c # cs) = rep @ re_sub m (last_matched (c # cs) rest) rest"
  by simp

lemma drop_before_found:
  "\<not> is_blank X \<Longrightarrow> next_nonblank cs = Some X \<Longrightarrow>
   drop_before X cs = X # drop_before X (tl (dropWhile is_blank cs))"
  by (induction cs) (auto split: if_splits)

lemma next_nonblank_Some: "next_nonblank cs = Some X \<Longrightarrow> \<exists>r. dropWhile is_blank cs = X # r"
  by (auto simp: next_nonblank_def split: list.splits)

lemma next_nonblank_not_blank: "next_nonblank cs = Some X \<Longrightarrow> \<not> is_blank X"
  by (induction cs) (auto split: if_splits)

lemma m_blanks_before_alt:
  "m_blanks_before X prev (c # cs) =
     (if is_blank c \<and> next_nonblank cs = Some X
      then Some ([X], tl (dropWhile is_blank cs)) else None)"
  by (cases "dropWhile is_blank cs")
     (simp_all add: m_blanks_before_def next_nonblank_def del: dropWhile_eq_Nil_conv)

lemma re_sub_before:
  assumes X: "\<not> is_blank X"
  shows "re_sub (m_blanks_before X) prev s = drop_before X s"
proof (induction s arbitrary: prev rule: length_induct)
  case (1 s)
  show ?case
  proof (cases s)
    case Nil
    then show ?thesis by simp
  next
    case (Cons c cs)
    show ?thesis
    proof (cases "is_blank c \<and> next_nonblank cs = Some X")
      case True
      then obtain r where r: "dropWhile is_blank cs = X # r"
        using next_nonblank_Some by blast
      have len: "length r < length cs"
        using length_dropWhile_le [of is_blank cs] r by simp
      have "m_blanks_before X prev (c # cs) = Some ([X], r)"
        using True r by (simp add: m_blanks_before_alt)
      then have "re_sub (m_blanks_before X) prev (c # cs) = X # drop_before X r"
        using 1 len Cons by simp
      moreover have "drop_before X (c # cs) = X # drop_before X r"
        using True X r drop_before_found [of X cs] by simp
      ultimately show ?thesis using Cons by simp
    next
      case False
      then have "m_blanks_before X prev (c # cs) = None"
        by (simp only: m_blanks_before_alt if_False)
      then show ?thesis using 1 Cons False by simp
    qed
  qed
qed

lemma drop_after_skip_run: "drop_after X True r = drop_after X True (dropWhile is_blank r)"
  by (induction r) auto

lemma drop_after_flag:
  "(case t of [] \<Rightarrow> True | d # _ \<Rightarrow> \<not> is_blank d) \<Longrightarrow> drop_after X skip t = drop_after X False t"
  by (cases t) auto

lemma dropWhile_head: "(case dropWhile P r of [] \<Rightarrow> True | d # _ \<Rightarrow> \<not> P d)"
  by (induction r) auto

lemma re_sub_after:
  "re_sub (m_blanks_after X) prev s = drop_after X False s"
proof (induction s arbitrary: prev rule: length_induct)
  case (1 s)
  show ?case
  proof (cases s)
    case Nil
    then show ?thesis by simp
  next
    case (Cons c cs)
    show ?thesis
    proof (cases "c = X \<and> (\<exists>b r. cs = b # r \<and> is_blank b)")
      case True
      then obtain b r where br: "c = X" "cs = b # r" "is_blank b" by blast
      define rest where "rest = dropWhile is_blank r"
      have len: "length rest < length cs"
        using length_dropWhile_le [of is_blank r] br by (simp add: rest_def)
      have "m_blanks_after X prev (c # cs) = Some ([X], rest)"
        using br by (simp add: m_blanks_after_def rest_def)
      then have "re_sub (m_blanks_after X) prev (c # cs) = X # drop_after X False rest"
        using 1 len Cons by simp
      moreover have "drop_after X True r = drop_after X False rest"
        using drop_after_skip_run [of X r] drop_after_flag [of rest X True] dropWhile_head [of is_blank r]
        by (simp add: rest_def)
      ultimately show ?thesis using Cons br by simp
    next
      case False
      then have none: "m_blanks_after X prev (c # cs) = None"
        by (auto simp: m_blanks_after_def split: list.splits)
      have "drop_after X (c = X) cs = drop_after X False cs"
      proof (cases "c = X")
        case True
        with False show ?thesis by (intro drop_after_flag) (auto split: list.splits)
      next
        case False
        then show ?thesis by simp
      qed
      then show ?thesis using 1 Cons none by simp
    qed
  qed
qed

lemma squeeze_skip_run: "squeeze True r = squeeze True (dropWhile is_blank r)"
  by (induction r) auto

lemma squeeze_flag:
  "(case t of [] \<Rightarrow> True | d # _ \<Rightarrow> \<not> is_blank d) \<Longrightarrow> squeeze inrun t = squeeze False t"
  by (cases t) auto

lemma re_sub_blanks: "re_sub m_blanks prev s = squeeze False s"
proof (induction s arbitrary: prev rule: length_induct)
  case (1 s)
  show ?case
  proof (cases s)
    case Nil
    then show ?thesis by simp
  next
    case (Cons c cs)
    show ?thesis
    proof (cases "is_blank c")
      case True
      define rest where "rest = dropWhile is_blank cs"
      have len: "length rest \<le> length cs"
        using length_dropWhile_le [of is_blank cs] by (simp add: rest_def)
      have "m_blanks prev (c # cs) = Some ([SP], rest)"
        using True by (simp add: m_blanks_def rest_def)
      then have "re_sub m_blanks prev (c # cs) = SP # squeeze False rest"
        using 1 len Cons by simp
      moreover have "squeeze True cs = squeeze False rest"
        using squeeze_skip_run [of cs] squeeze_flag [of rest True] dropWhile_head [of is_blank cs]
        by (simp add: rest_def)
      ultimately show ?thesis using Cons True by simp
    next
      case False
      then have "m_blanks prev (c # cs) = None"
        by (simp add: m_blanks_def)
      then show ?thesis using 1 Cons False by simp
    qed
  qed
qed


section \<open>What the normalizer keeps and what it reaches\<close>

lemma SP_space [simp]: "is_space SP"
  by (simp add: is_space_def SP_def)

lemma filter_drop_before:
  "filter (\<lambda>c. \<not> is_space c) (drop_before X s) = filter (\<lambda>c. \<not> is_space c) s"
  by (induction s) (auto simp: blank_is_space)

lemma filter_drop_after:
  "filter (\<lambda>c. \<not> is_space c) (drop_after X skip s) = filter (\<lambda>c. \<not> is_space c) s"
  by (induction s arbitrary: skip) (auto simp: blank_is_space)

lemma filter_squeeze:
  "filter (\<lambda>c. \<not> is_space c) (squeeze inrun s) = filter (\<lambda>c. \<not> is_space c) s"
  by (induction s arbitrary: inrun) (auto simp: blank_is_space)

lemma set_drop_before: "set (drop_before X s) \<subseteq> set s"
  by (induction s) auto

lemma set_drop_after: "set (drop_after X skip s) \<subseteq> set s"
  by (induction s arbitrary: skip) auto

lemma set_squeeze: "set (squeeze inrun s) \<subseteq> insert SP (set s)"
  by (induction s arbitrary: inrun) auto

lemma nbb_weaken: "no_blank_before X True s \<Longrightarrow> no_blank_before X pb s"
  by (cases s) auto

lemma nbb_drop_before: "no_blank_before X pb s \<Longrightarrow> no_blank_before X pb (drop_before Y s)"
proof (induction s arbitrary: pb)
  case Nil
  then show ?case by simp
next
  case (Cons c cs)
  show ?case
  proof (cases "is_blank c \<and> next_nonblank cs = Some Y")
    case True
    with Cons.prems have "no_blank_before X True cs" by simp
    then have "no_blank_before X True (drop_before Y cs)" by (rule Cons.IH)
    then show ?thesis using True by (simp add: nbb_weaken)
  next
    case False
    with Cons show ?thesis by auto
  qed
qed

lemma nbb_drop_after: "no_blank_before X pb s \<Longrightarrow> no_blank_before X pb (drop_after Y skip s)"
proof (induction s arbitrary: pb skip)
  case Nil
  then show ?case by simp
next
  case (Cons c cs)
  show ?case
  proof (cases "skip \<and> is_blank c")
    case True
    with Cons.prems have "no_blank_before X True cs" by simp
    then have "no_blank_before X True (drop_after Y True cs)" by (rule Cons.IH)
    then show ?thesis using True by (simp add: nbb_weaken)
  next
    case False
    with Cons show ?thesis by auto
  qed
qed

lemma nbb_squeeze:
  "\<not> is_blank X \<Longrightarrow> no_blank_before X pb s \<Longrightarrow> no_blank_before X pb (squeeze inrun s)"
proof (induction s arbitrary: pb inrun)
  case Nil
  then show ?case by simp
next
  case (Cons c cs)
  show ?case
  proof (cases "is_blank c")
    case True
    with Cons.prems have "no_blank_before X True cs" by simp
    then have ih: "no_blank_before X True (squeeze True cs)"
      using Cons.IH Cons.prems(1) by blast
    show ?thesis
    proof (cases inrun)
      case True
      with \<open>is_blank c\<close> ih show ?thesis by (simp add: nbb_weaken)
    next
      case False
      with \<open>is_blank c\<close> ih Cons.prems(1) show ?thesis by auto
    qed
  next
    case False
    with Cons show ?thesis by auto
  qed
qed

lemma nba_drop_before:
  "\<not> is_blank X \<Longrightarrow> no_blank_after X px s \<Longrightarrow> no_blank_after X px (drop_before Y s)"
proof (induction s arbitrary: px)
  case Nil
  then show ?case by simp
next
  case (Cons c cs)
  show ?case
  proof (cases "is_blank c \<and> next_nonblank cs = Some Y")
    case True
    then have "c \<noteq> X" using Cons.prems(1) by auto
    with True Cons.prems have "\<not> px" "no_blank_after X False cs" by auto
    then show ?thesis using True Cons.IH Cons.prems(1) by auto
  next
    case False
    with Cons show ?thesis by auto
  qed
qed

lemma nba_drop_after:
  "\<not> is_blank X \<Longrightarrow> no_blank_after X px s \<Longrightarrow> no_blank_after X px (drop_after Y skip s)"
proof (induction s arbitrary: px skip)
  case Nil
  then show ?case by simp
next
  case (Cons c cs)
  show ?case
  proof (cases "skip \<and> is_blank c")
    case True
    then have "c \<noteq> X" using Cons.prems(1) by auto
    with True Cons.prems have "\<not> px" "no_blank_after X False cs" by auto
    then show ?thesis using True Cons.IH Cons.prems(1) by auto
  next
    case False
    with Cons show ?thesis by auto
  qed
qed

lemma nba_squeeze:
  "\<not> is_blank X \<Longrightarrow> no_blank_after X px s \<Longrightarrow> no_blank_after X px (squeeze inrun s)"
proof (induction s arbitrary: px inrun)
  case Nil
  then show ?case by simp
next
  case (Cons c cs)
  show ?case
  proof (cases "is_blank c")
    case True
    then have "c \<noteq> X" using Cons.prems(1) by auto
    with True Cons.prems have npx: "\<not> px" and "no_blank_after X False cs" by auto
    then have ih: "no_blank_after X False (squeeze True cs)"
      using Cons.IH Cons.prems(1) by blast
    have "SP \<noteq> X" using Cons.prems(1) by auto
    then show ?thesis using True npx ih by (cases inrun) auto
  next
    case False
    with Cons show ?thesis by auto
  qed
qed

lemma nbb_reached:
  "\<not> is_blank X \<Longrightarrow> (pb \<longrightarrow> next_nonblank s \<noteq> Some X) \<Longrightarrow>
   no_blank_before X pb (drop_before X s)"
proof (induction s arbitrary: pb)
  case Nil
  then show ?case by simp
next
  case (Cons c cs)
  show ?case
  proof (cases "is_blank c")
    case True
    show ?thesis
    proof (cases "next_nonblank cs = Some X")
      case found: True
      with True Cons.prems have "\<not> pb" by simp
      then have "no_blank_before X pb (drop_before X cs)"
        using Cons.IH [of pb] Cons.prems(1) by simp
      then show ?thesis using True found by simp
    next
      case False
      then have "no_blank_before X True (drop_before X cs)"
        using Cons.IH [of True] Cons.prems(1) by simp
      moreover have "c \<noteq> X" using True Cons.prems(1) by auto
      ultimately show ?thesis using True False by simp
    qed
  next
    case False
    have "no_blank_before X False (drop_before X cs)"
      using Cons.IH [of False] Cons.prems(1) by simp
    moreover have "\<not> (pb \<and> c = X)" using False Cons.prems(2) by auto
    ultimately show ?thesis using False by simp
  qed
qed

lemma nba_reached: "(px \<longrightarrow> skip) \<Longrightarrow> no_blank_after X px (drop_after X skip s)"
  by (induction s arbitrary: px skip) simp_all

lemma squeezed_weaken: "squeezed True s \<Longrightarrow> squeezed ps s"
  by (cases s) auto

lemma squeezed_reached: "(ps \<longrightarrow> inrun) \<Longrightarrow> squeezed ps (squeeze inrun s)"
proof (induction s arbitrary: ps inrun)
  case Nil
  then show ?case by simp
next
  case (Cons c cs)
  have sp: "SP \<noteq> TAB" by (simp add: SP_def TAB_def)
  show ?case
  proof (cases "is_blank c")
    case True
    then show ?thesis
      using Cons.IH [of True True] squeezed_weaken [of "squeeze True cs" ps] Cons.prems sp by auto
  next
    case False
    then have "c \<noteq> TAB" "c \<noteq> SP" by (auto simp: is_blank_def)
    then show ?thesis using False Cons.IH [of False False] by simp
  qed
qed

lemma nbb_next: "no_blank_before X True s \<Longrightarrow> next_nonblank s \<noteq> Some X"
proof (induction s)
  case Nil
  then show ?case by simp
next
  case (Cons c cs)
  then show ?case by (cases "is_blank c") simp_all
qed

lemma nbb_fixed: "no_blank_before X pb s \<Longrightarrow> drop_before X s = s"
proof (induction s arbitrary: pb)
  case Nil
  then show ?case by simp
next
  case (Cons c cs)
  from Cons.prems have rest: "no_blank_before X (is_blank c) cs" by simp
  then have "drop_before X cs = cs" by (rule Cons.IH)
  moreover have "\<not> (is_blank c \<and> next_nonblank cs = Some X)"
    using rest nbb_next [of X cs] by auto
  ultimately show ?case by simp
qed

lemma nba_fixed: "no_blank_after X px s \<Longrightarrow> (skip \<longrightarrow> px) \<Longrightarrow> drop_after X skip s = s"
proof (induction s arbitrary: px skip)
  case Nil
  then show ?case by simp
next
  case (Cons c cs)
  from Cons.prems have "\<not> (skip \<and> is_blank c)" "no_blank_after X (c = X) cs" by auto
  then show ?case using Cons.IH [of "c = X" "c = X"] by auto
qed

lemma squeezed_fixed: "squeezed ps s \<Longrightarrow> (inrun \<longrightarrow> ps) \<Longrightarrow> squeeze inrun s = s"
proof (induction s arbitrary: ps inrun)
  case Nil
  then show ?case by simp
next
  case (Cons c cs)
  from Cons.prems have c: "c \<noteq> TAB" "\<not> (ps \<and> c = SP)" and rest: "squeezed (c = SP) cs" by auto
  show ?case
  proof (cases "is_blank c")
    case True
    with c have "c = SP" "\<not> ps" by (auto simp: is_blank_def)
    then show ?thesis using True rest Cons.IH [of True True] Cons.prems(2) by simp
  next
    case False
    then have "c \<noteq> SP" by (auto simp: is_blank_def)
    then show ?thesis using False rest Cons.IH [of False False] by simp
  qed
qed


section \<open>One line through the normalizer\<close>

lemma symbols_not_blank: "X \<in> set symbols \<Longrightarrow> \<not> is_blank X"
  by (auto simp: symbols_def is_blank_def SP_def TAB_def)

lemma strip_around_pass:
  "\<not> is_blank X \<Longrightarrow> strip_around s X = drop_after X False (drop_before X s)"
  by (simp add: strip_around_def re_sub_before re_sub_after)

lemma strip_around_clean:
  assumes "\<not> is_blank X"
  shows "no_blank_before X False (strip_around s X) \<and> no_blank_after X False (strip_around s X)"
  using assms by (simp add: strip_around_pass nbb_drop_after nbb_reached nba_reached)

lemma strip_around_keeps_clean:
  assumes "\<not> is_blank Y" "\<not> is_blank X"
    and "no_blank_before X False s \<and> no_blank_after X False s"
  shows "no_blank_before X False (strip_around s Y) \<and> no_blank_after X False (strip_around s Y)"
  using assms
  by (simp add: strip_around_pass nbb_drop_after nbb_drop_before nba_drop_after nba_drop_before)

lemma foldl_strip_clean:
  assumes "\<And>X. X \<in> set xs \<Longrightarrow> \<not> is_blank X"
    and "\<And>X. X \<in> A \<Longrightarrow> \<not> is_blank X \<and> no_blank_before X False s \<and> no_blank_after X False s"
    and "X \<in> A \<union> set xs"
  shows "no_blank_before X False (foldl strip_around s xs) \<and>
         no_blank_after X False (foldl strip_around s xs)"
  using assms
proof (induction xs arbitrary: s A)
  case Nil
  then show ?case by simp
next
  case (Cons x xs)
  have x: "\<not> is_blank x" using Cons.prems(1) by simp
  have step: "\<not> is_blank Z \<and> no_blank_before Z False (strip_around s x) \<and>
              no_blank_after Z False (strip_around s x)" if "Z \<in> insert x A" for Z
  proof (cases "Z = x")
    case True
    then show ?thesis using x strip_around_clean by simp
  next
    case False
    with that have "Z \<in> A" by simp
    then show ?thesis using Cons.prems(2) [of Z] x strip_around_keeps_clean by simp
  qed
  have "X \<in> insert x A \<union> set xs" using Cons.prems(3) by auto
  then have "no_blank_before X False (foldl strip_around (strip_around s x) xs) \<and>
             no_blank_after X False (foldl strip_around (strip_around s x) xs)"
    using Cons.IH [of "insert x A" "strip_around s x"] Cons.prems(1) step by simp
  then show ?case by simp
qed

lemma foldl_strip_fixed:
  assumes "\<And>X. X \<in> set xs \<Longrightarrow>
             \<not> is_blank X \<and> no_blank_before X False s \<and> no_blank_after X False s"
  shows "foldl strip_around s xs = s"
  using assms
proof (induction xs)
  case Nil
  then show ?case by simp
next
  case (Cons x xs)
  have "strip_around s x = s"
    using Cons.prems [of x] nbb_fixed [of x False s] nba_fixed [of x False s False]
    by (simp add: strip_around_pass)
  then show ?case using Cons by simp
qed

lemma foldl_strip_filter:
  assumes "\<And>X. X \<in> set xs \<Longrightarrow> \<not> is_blank X"
  shows "filter (\<lambda>c. \<not> is_space c) (foldl strip_around s xs) = filter (\<lambda>c. \<not> is_space c) s"
  using assms
  by (induction xs arbitrary: s) (simp_all add: strip_around_pass filter_drop_after filter_drop_before)

lemma foldl_strip_set:
  assumes "\<And>X. X \<in> set xs \<Longrightarrow> \<not> is_blank X"
  shows "set (foldl strip_around s xs) \<subseteq> set s"
  using assms
proof (induction xs arbitrary: s)
  case Nil
  then show ?case by simp
next
  case (Cons x xs)
  have "set (strip_around s x) \<subseteq> set s"
    using Cons.prems [of x] set_drop_after [of x False "drop_before x s"] set_drop_before [of x s]
    by (simp add: strip_around_pass)
  moreover have "set (foldl strip_around (strip_around s x) xs) \<subseteq> set (strip_around s x)"
    using Cons.IH Cons.prems by simp
  ultimately show ?case by auto
qed

text \<open>The line of a directive: the whitespace in front of the hash goes, nothing else.\<close>

lemma re_sub_hash_inner: "re_sub m_leading_hash (Some p) s = s"
  by (induction s arbitrary: p) (simp_all add: m_leading_hash_def)

lemma last_matched_Some: "length rest < length s \<Longrightarrow> last_matched s rest \<noteq> None"
  by (cases "take (length s - length rest) s") (auto simp: last_matched_def)

lemma is_directive_line_iff:
  "is_directive_line l \<longleftrightarrow> (\<exists>r. dropWhile is_space l = CHR ''#'' # r)"
  by (cases "dropWhile is_space l")
     (simp_all add: is_directive_line_def py_lstrip_def startswith_hash_def del: dropWhile_eq_Nil_conv)

lemma re_sub_hash:
  assumes "dropWhile is_space l = CHR ''#'' # r"
  shows "re_sub m_leading_hash None l = CHR ''#'' # r"
proof (cases l)
  case Nil
  with assms show ?thesis by simp
next
  case (Cons c cs)
  have len: "length r < length l"
    using length_dropWhile_le [of is_space l] assms by simp
  have m: "m_leading_hash None (c # cs) = Some (''#'', r)"
    using assms Cons by (simp add: m_leading_hash_def)
  obtain p where "last_matched (c # cs) r = Some p"
    using last_matched_Some [OF len] Cons by auto
  then show ?thesis using m len Cons by (simp add: re_sub_hash_inner)
qed

lemma hash_not_space: "\<not> is_space (CHR ''#'')" "\<not> is_blank (CHR ''#'')"
  by (simp_all add: is_space_def is_blank_def SP_def TAB_def)

lemma normalize_directive:
  assumes "dropWhile is_space l = CHR ''#'' # r"
  shows "normalize_line l = CHR ''#'' # squeeze False r"
  using assms is_directive_line_iff [of l]
  by (simp add: normalize_line_def re_sub_hash re_sub_blanks hash_not_space)

lemma normalize_other:
  assumes "\<not> is_directive_line l"
  shows "normalize_line l = squeeze False (foldl strip_around l symbols)"
  using assms by (simp add: normalize_line_def re_sub_blanks)

lemma filter_dropWhile_space:
  "filter (\<lambda>c. \<not> is_space c) (dropWhile is_space l) = filter (\<lambda>c. \<not> is_space c) l"
  by (induction l) auto

lemma normalize_line_filter:
  "filter (\<lambda>c. \<not> is_space c) (normalize_line l) = filter (\<lambda>c. \<not> is_space c) l"
proof (cases "is_directive_line l")
  case True
  then obtain r where r: "dropWhile is_space l = CHR ''#'' # r"
    using is_directive_line_iff by blast
  have "filter (\<lambda>c. \<not> is_space c) (normalize_line l) = filter (\<lambda>c. \<not> is_space c) (CHR ''#'' # r)"
    using r by (simp add: normalize_directive filter_squeeze)
  also have "\<dots> = filter (\<lambda>c. \<not> is_space c) l"
    using filter_dropWhile_space [of l] r by simp
  finally show ?thesis .
next
  case False
  then show ?thesis
    by (simp add: normalize_other filter_squeeze foldl_strip_filter symbols_not_blank)
qed

lemma set_dropWhile: "set (dropWhile P l) \<subseteq> set l"
  by (induction l) auto

lemma normalize_line_set: "set (normalize_line l) \<subseteq> insert SP (set l)"
proof (cases "is_directive_line l")
  case True
  then obtain r where r: "dropWhile is_space l = CHR ''#'' # r"
    using is_directive_line_iff by blast
  have "set (CHR ''#'' # r) \<subseteq> set l"
    using set_dropWhile [of is_space l] r by simp
  moreover have "set (squeeze False r) \<subseteq> insert SP (set r)" by (rule set_squeeze)
  ultimately show ?thesis using r by (auto simp: normalize_directive)
next
  case False
  have "set (foldl strip_around l symbols) \<subseteq> set l"
    by (rule foldl_strip_set) (rule symbols_not_blank)
  moreover have "set (squeeze False (foldl strip_around l symbols))
      \<subseteq> insert SP (set (foldl strip_around l symbols))" by (rule set_squeeze)
  ultimately show ?thesis using False by (auto simp: normalize_other)
qed

text \<open>Directive or not, blank or not: the normalizer does not change what a line is.\<close>

lemma is_directive_line_filter:
  "is_directive_line l \<longleftrightarrow>
     (case filter (\<lambda>c. \<not> is_space c) l of [] \<Rightarrow> False | c # _ \<Rightarrow> c = CHR ''#'')"
  by (induction l) (auto simp: is_directive_line_def py_lstrip_def startswith_hash_def)

lemma all_dropWhile: "(\<forall>c \<in> set (dropWhile P l). P c) \<longleftrightarrow> (\<forall>c \<in> set l. P c)"
  by (induction l) auto

lemma py_strip_empty: "py_strip l = [] \<longleftrightarrow> filter (\<lambda>c. \<not> is_space c) l = []"
proof -
  have "py_strip l = [] \<longleftrightarrow> (\<forall>c \<in> set (dropWhile is_space l). is_space c)"
    by (simp add: py_strip_def)
  then show ?thesis by (simp add: all_dropWhile filter_empty_conv)
qed

lemma normalize_line_directive [simp]: "is_directive_line (normalize_line l) = is_directive_line l"
  by (simp add: is_directive_line_filter normalize_line_filter)

lemma normalize_line_blank [simp]: "py_strip (normalize_line l) = [] \<longleftrightarrow> py_strip l = []"
  by (simp add: py_strip_empty normalize_line_filter)

lemma squeeze_squeeze: "squeeze False (squeeze False s) = squeeze False s"
  by (rule squeezed_fixed [of False]) (simp_all add: squeezed_reached)

lemma normalize_line_idem: "normalize_line (normalize_line l) = normalize_line l"
proof (cases "is_directive_line l")
  case True
  then obtain r where r: "dropWhile is_space l = CHR ''#'' # r"
    using is_directive_line_iff by blast
  then have n: "normalize_line l = CHR ''#'' # squeeze False r" by (rule normalize_directive)
  have "dropWhile is_space (CHR ''#'' # squeeze False r) = CHR ''#'' # squeeze False r"
    by (simp add: hash_not_space)
  then have "normalize_line (CHR ''#'' # squeeze False r) = CHR ''#'' # squeeze False (squeeze False r)"
    by (rule normalize_directive)
  then show ?thesis by (simp add: n squeeze_squeeze)
next
  case False
  define t where "t = foldl strip_around l symbols"
  have n: "normalize_line l = squeeze False t" using False by (simp add: normalize_other t_def)
  have clean: "\<not> is_blank X \<and> no_blank_before X False (squeeze False t) \<and>
               no_blank_after X False (squeeze False t)" if "X \<in> set symbols" for X
  proof -
    have X: "\<not> is_blank X" using that by (rule symbols_not_blank)
    have "no_blank_before X False t \<and> no_blank_after X False t"
      unfolding t_def using that foldl_strip_clean [where xs = symbols and A = "{}" and X = X and s = l] symbols_not_blank by auto
    then show ?thesis using X by (simp add: nbb_squeeze nba_squeeze)
  qed
  have "\<not> is_directive_line (squeeze False t)"
    using False normalize_line_directive [of l] by (simp add: n)
  then have "normalize_line (squeeze False t) =
      squeeze False (foldl strip_around (squeeze False t) symbols)"
    by (rule normalize_other)
  also have "foldl strip_around (squeeze False t) symbols = squeeze False t"
    using clean by (intro foldl_strip_fixed) blast
  finally show ?thesis by (simp add: n squeeze_squeeze)
qed


section \<open>Splitting at line feeds and joining again\<close>

lemma split_from_acc:
  "split_from cur s = (cur @ hd (split_from [] s)) # tl (split_from [] s)"
proof (induction s arbitrary: cur)
  case Nil
  then show ?case by simp
next
  case (Cons c cs)
  show ?case
  proof (cases "c = NL")
    case True
    then show ?thesis by simp
  next
    case False
    have "split_from (cur @ [c]) cs = ((cur @ [c]) @ hd (split_from [] cs)) # tl (split_from [] cs)"
      by (rule Cons.IH)
    moreover have "split_from [c] cs = ([c] @ hd (split_from [] cs)) # tl (split_from [] cs)"
      using Cons.IH [of "[c]"] by simp
    ultimately show ?thesis using False by simp
  qed
qed

lemma split_nl_Nil [simp]: "split_nl [] = [[]]"
  by (simp add: split_nl_def)

lemma split_nl_Cons:
  "split_nl (c # cs) =
     (if c = NL then [] # split_nl cs else (c # hd (split_nl cs)) # tl (split_nl cs))"
  using split_from_acc [of "[c]" cs] by (simp add: split_nl_def)

lemma split_nl_not_Nil [simp]: "split_nl s \<noteq> []"
  by (cases s) (simp_all add: split_nl_Cons)

lemma split_nl_append_line:
  "NL \<notin> set l \<Longrightarrow> split_nl (l @ s) = (l @ hd (split_nl s)) # tl (split_nl s)"
  by (induction l) (auto simp: split_nl_Cons)

lemma split_nl_line: "NL \<notin> set l \<Longrightarrow> split_nl l = [l]"
  using split_nl_append_line [of l "[]"] by simp

lemma split_nl_join:
  "ls \<noteq> [] \<Longrightarrow> (\<And>l. l \<in> set ls \<Longrightarrow> NL \<notin> set l) \<Longrightarrow> split_nl (join_nl ls) = ls"
proof (induction ls rule: join_nl.induct)
  case 1
  then show ?case by simp
next
  case (2 l)
  then show ?case by (simp add: split_nl_line)
next
  case (3 l l' ls)
  have "split_nl (join_nl (l' # ls)) = l' # ls" using 3 by simp
  moreover have "NL \<notin> set l" using 3(3) by simp
  ultimately show ?case by (simp add: split_nl_append_line split_nl_Cons)
qed

lemma join_nl_Cons_char: "join_nl ((c # l) # ls) = c # join_nl (l # ls)"
  by (cases ls) simp_all

lemma join_nl_split: "join_nl (split_nl s) = s"
proof (induction s)
  case Nil
  then show ?case by simp
next
  case (Cons c cs)
  obtain l ls where ls: "split_nl cs = l # ls" by (cases "split_nl cs") simp_all
  then show ?case using Cons by (simp add: split_nl_Cons join_nl_Cons_char)
qed

lemma split_nl_no_NL: "l \<in> set (split_nl s) \<Longrightarrow> NL \<notin> set l"
proof (induction s arbitrary: l)
  case Nil
  then show ?case by simp
next
  case (Cons c cs)
  obtain h t where ht: "split_nl cs = h # t" by (cases "split_nl cs") simp_all
  have h: "NL \<notin> set h" and t: "\<And>x. x \<in> set t \<Longrightarrow> NL \<notin> set x"
    using Cons.IH ht by simp_all
  show ?case
  proof (cases "c = NL")
    case True
    with Cons.prems ht h t show ?thesis by (auto simp: split_nl_Cons)
  next
    case False
    with Cons.prems ht h t show ?thesis by (auto simp: split_nl_Cons)
  qed
qed

lemma count_join_nl:
  "(\<And>l. l \<in> set ls \<Longrightarrow> NL \<notin> set l) \<Longrightarrow> count_list (join_nl ls) NL = length ls - 1"
proof (induction ls rule: join_nl.induct)
  case 1
  then show ?case by simp
next
  case (2 l)
  then show ?case by (simp add: count_list_0_iff)
next
  case (3 l l' ls)
  have "count_list l NL = 0" using 3(2) by (simp add: count_list_0_iff)
  moreover have "count_list (join_nl (l' # ls)) NL = length (l' # ls) - 1" using 3 by simp
  ultimately show ?case by simp
qed

lemma count_NL_lines: "count_list s NL = length (split_nl s) - 1"
  using count_join_nl [of "split_nl s"] split_nl_no_NL by (simp add: join_nl_split)

lemma SP_not_NL [simp]: "SP \<noteq> NL"
  by (simp add: SP_def NL_def)

lemma normalize_line_no_NL: "NL \<notin> set l \<Longrightarrow> NL \<notin> set (normalize_line l)"
  using normalize_line_set [of l] SP_not_NL by (metis insertE subsetD)

lemma split_nl_normalize_spaces:
  "split_nl (normalize_spaces s) = map normalize_line (split_nl s)"
  unfolding normalize_spaces_def
  by (rule split_nl_join) (auto dest: split_nl_no_NL normalize_line_no_NL)

section \<open>The normalizer keeps the lines\<close>

text \<open>
  C9: the symbol-normalization stage keeps the number of lines: its output has
  exactly as many line feeds as its input.  Its lines are the normalized lines
  of the input, one for one, and a line is a directive in the output exactly
  when it is one in the input.
\<close>

theorem normalize_spaces_keeps_lines:
  "count_list (normalize_spaces s) NL = count_list s NL \<and>
   split_nl (normalize_spaces s) = map normalize_line (split_nl s) \<and>
   map is_directive_line (split_nl (normalize_spaces s)) = map is_directive_line (split_nl s)"
  by (simp add: count_NL_lines split_nl_normalize_spaces)


section \<open>The loop of the compactor\<close>

lemma concat_newline_step:
  "concat (newline_step lines result i) = concat result @ separator lines i @ lines ! i"
proof -
  have "i < length lines - 1 \<longleftrightarrow> i + 1 < length lines" by auto
  then show ?thesis by (simp add: newline_step_def separator_def Let_def)
qed

lemma concat_foldl_newline_step:
  "concat (foldl (newline_step lines) result is) =
   concat result @ concat (map (\<lambda>i. separator lines i @ lines ! i) is)"
  by (induction "is" arbitrary: result) (simp_all add: concat_newline_step)

lemma remove_newlines_separators:
  "remove_newlines s =
   concat (map (\<lambda>i. separator (kept_lines s) i @ kept_lines s ! i) [0..<length (kept_lines s)])"
  by (simp add: remove_newlines_def kept_lines_def [symmetric] Let_def concat_foldl_newline_step)

lemma separator_first: "separator ls 0 = []"
  by (simp add: separator_def)

lemma separator_later:
  "pre \<noteq> [] \<Longrightarrow> separator (pre @ l # ls) (length pre) =
     (if is_directive_line l \<or> is_directive_line (last pre) \<or> next_is_directive ls
      then [NL] else [])"
  by (cases ls) (auto simp: separator_def next_is_directive_def nth_append last_conv_nth)

lemma pieces_compact:
  "concat (map (\<lambda>i. separator (pre @ ls) i @ (pre @ ls) ! i) [length pre..<length pre + length ls]) =
   (if pre = [] then compact ls else compact_rest (is_directive_line (last pre)) ls)"
proof (induction ls arbitrary: pre)
  case Nil
  then show ?case by simp
next
  case (Cons l ls)
  have range: "[length pre..<length pre + length (l # ls)] =
      length pre # [length (pre @ [l])..<length (pre @ [l]) + length ls]"
    by (subst upt_rec) simp
  have rest: "concat (map (\<lambda>i. separator (pre @ l # ls) i @ (pre @ l # ls) ! i)
                [length (pre @ [l])..<length (pre @ [l]) + length ls]) =
              compact_rest (is_directive_line l) ls"
    using Cons.IH [of "pre @ [l]"] by simp
  show ?case
  proof (cases "pre = []")
    case True
    then show ?thesis
      unfolding range using rest by (simp add: separator_first)
  next
    case False
    then show ?thesis
      unfolding range using rest by (simp add: separator_later)
  qed
qed

lemma remove_newlines_compact: "remove_newlines s = compact (kept_lines s)"
  using pieces_compact [of "[]" "kept_lines s"] by (simp add: remove_newlines_separators)

section \<open>The kept lines\<close>

lemma splitlines_from_clean:
  "l \<in> set (splitlines_from cur s) \<Longrightarrow> (\<And>c. c \<in> set cur \<Longrightarrow> \<not> is_linebreak c) \<Longrightarrow>
   c \<in> set l \<Longrightarrow> \<not> is_linebreak c"
proof (induction cur s arbitrary: l rule: splitlines_from.induct)
  case (1 cur)
  then show ?case by (auto split: if_splits)
next
  case (2 cur x)
  then show ?case by (auto split: if_splits)
next
  case (3 cur x d cs)
  show ?case
  proof (cases "x = CR \<and> d = NL")
    case True
    then show ?thesis using 3(1)[OF True] 3(4,5,6) by auto
  next
    case notcr: False
    show ?thesis
    proof (cases "is_linebreak x")
      case True
      then show ?thesis using 3(2)[OF notcr True] 3(4,5,6) notcr by auto
    next
      case False
      then show ?thesis using 3(3)[OF notcr False, of l] 3(4,5,6) notcr by auto
    qed
  qed
qed

lemma NL_linebreak [simp]: "is_linebreak NL"
  by (simp add: is_linebreak_def NL_def)

lemma kept_lines_clean: "l \<in> set (kept_lines s) \<Longrightarrow> c \<in> set l \<Longrightarrow> \<not> is_linebreak c"
  using splitlines_from_clean [of l "[]" s c] by (simp add: kept_lines_def splitlines_def)

lemma kept_lines_no_NL: "l \<in> set (kept_lines s) \<Longrightarrow> NL \<notin> set l"
  using kept_lines_clean [of l s NL] by auto

lemma kept_lines_not_blank: "l \<in> set (kept_lines s) \<Longrightarrow> py_strip l \<noteq> []"
  by (simp add: kept_lines_def)


section \<open>The output of the compactor, line by line\<close>

lemma directive_append:
  "py_strip cur \<noteq> [] \<Longrightarrow> is_directive_line (cur @ l) = is_directive_line cur"
  by (cases "filter (\<lambda>c. \<not> is_space c) cur") (simp_all add: is_directive_line_filter py_strip_empty)

lemma not_blank_append: "py_strip cur \<noteq> [] \<Longrightarrow> py_strip (cur @ l) \<noteq> []"
  by (simp add: py_strip_empty)

lemma groups_from_not_Nil [simp]: "groups_from cur pd ls \<noteq> []"
  by (induction ls arbitrary: cur pd) auto

lemma join_nl_Cons: "G \<noteq> [] \<Longrightarrow> join_nl (g # G) = g @ NL # join_nl G"
  by (cases G) simp_all

lemma join_groups: "join_nl (groups_from cur pd ls) = cur @ compact_rest pd ls"
  by (induction ls arbitrary: cur pd) (simp_all add: join_nl_Cons)

lemma groups_head: "\<exists>t G. groups_from cur pd ls = (cur @ t) # G"
proof (induction ls arbitrary: cur pd)
  case Nil
  then show ?case by simp
next
  case (Cons l ls)
  show ?case
  proof (cases "is_directive_line l \<or> pd \<or> next_is_directive ls")
    case True
    then have "groups_from cur pd (l # ls) = (cur @ []) # groups_from l (is_directive_line l) ls"
      by simp
    then show ?thesis by blast
  next
    case False
    obtain t G where "groups_from (cur @ l) (is_directive_line l) ls = ((cur @ l) @ t) # G"
      using Cons.IH by blast
    then have "groups_from cur pd (l # ls) = (cur @ (l @ t)) # G" using False by simp
    then show ?thesis by blast
  qed
qed

lemma groups_chars:
  "g \<in> set (groups_from cur pd ls) \<Longrightarrow> c \<in> set g \<Longrightarrow> c \<in> set cur \<or> (\<exists>l \<in> set ls. c \<in> set l)"
proof (induction ls arbitrary: cur pd)
  case Nil
  then show ?case by simp
next
  case (Cons l ls)
  show ?case
  proof (cases "is_directive_line l \<or> pd \<or> next_is_directive ls")
    case True
    with Cons.prems have "g = cur \<or> g \<in> set (groups_from l (is_directive_line l) ls)" by auto
    then show ?thesis using Cons.IH [of l "is_directive_line l"] Cons.prems(2) by auto
  next
    case False
    with Cons.prems have "g \<in> set (groups_from (cur @ l) (is_directive_line l) ls)" by auto
    then show ?thesis using Cons.IH [of "cur @ l" "is_directive_line l"] Cons.prems(2) by auto
  qed
qed

lemma groups_not_blank:
  "g \<in> set (groups_from cur pd ls) \<Longrightarrow> py_strip cur \<noteq> [] \<Longrightarrow>
   (\<And>l. l \<in> set ls \<Longrightarrow> py_strip l \<noteq> []) \<Longrightarrow> py_strip g \<noteq> []"
proof (induction ls arbitrary: cur pd)
  case Nil
  then show ?case by simp
next
  case (Cons l ls)
  have l: "py_strip l \<noteq> []" using Cons.prems(3) by simp
  show ?case
  proof (cases "is_directive_line l \<or> pd \<or> next_is_directive ls")
    case True
    with Cons.prems(1) have "g = cur \<or> g \<in> set (groups_from l (is_directive_line l) ls)" by auto
    then show ?thesis using Cons.IH [of l "is_directive_line l"] Cons.prems(2,3) l by auto
  next
    case False
    with Cons.prems(1) have "g \<in> set (groups_from (cur @ l) (is_directive_line l) ls)" by auto
    then show ?thesis
      using Cons.IH [of "cur @ l" "is_directive_line l"] Cons.prems(2,3) not_blank_append by auto
  qed
qed

text \<open>
  A directive starts an output line of its own and ends it: the output lines that
  are directives are the kept lines that are directives.
\<close>

lemma groups_directives:
  "py_strip cur \<noteq> [] \<Longrightarrow> (\<And>l. l \<in> set ls \<Longrightarrow> py_strip l \<noteq> []) \<Longrightarrow>
   filter is_directive_line (groups_from cur (is_directive_line cur) ls) =
   filter is_directive_line (cur # ls)"
proof (induction ls arbitrary: cur)
  case Nil
  then show ?case by simp
next
  case (Cons l ls)
  have l: "py_strip l \<noteq> []" using Cons.prems(2) by simp
  show ?case
  proof (cases "is_directive_line l \<or> is_directive_line cur \<or> next_is_directive ls")
    case True
    have "filter is_directive_line (groups_from l (is_directive_line l) ls) =
          filter is_directive_line (l # ls)"
      using Cons.IH [of l] l Cons.prems(2) by simp
    then show ?thesis using True by simp
  next
    case False
    then have dir: "is_directive_line (cur @ l) = is_directive_line l"
      using directive_append [OF Cons.prems(1), of l] by simp
    have "filter is_directive_line (groups_from (cur @ l) (is_directive_line (cur @ l)) ls) =
          filter is_directive_line ((cur @ l) # ls)"
      using Cons.IH [of "cur @ l"] not_blank_append [OF Cons.prems(1)] Cons.prems(2) by simp
    then show ?thesis using False dir by simp
  qed
qed

lemma remove_newlines_groups:
  assumes "kept_lines s = l0 # rest"
  shows "remove_newlines s = join_nl (groups_from l0 (is_directive_line l0) rest)"
    and "split_nl (remove_newlines s) = groups_from l0 (is_directive_line l0) rest"
proof -
  show eq: "remove_newlines s = join_nl (groups_from l0 (is_directive_line l0) rest)"
    using assms by (simp add: remove_newlines_compact join_groups)
  have "NL \<notin> set g" if "g \<in> set (groups_from l0 (is_directive_line l0) rest)" for g
  proof
    assume "NL \<in> set g"
    then have "NL \<in> set l0 \<or> (\<exists>l \<in> set rest. NL \<in> set l)"
      using groups_chars that by blast
    then show False using kept_lines_no_NL [of _ s] assms by auto
  qed
  then show "split_nl (remove_newlines s) = groups_from l0 (is_directive_line l0) rest"
    unfolding eq by (intro split_nl_join) simp_all
qed

lemma remove_newlines_lines_not_blank:
  assumes "remove_newlines s \<noteq> []" "l \<in> set (split_nl (remove_newlines s))"
  shows "py_strip l \<noteq> []"
proof (cases "kept_lines s")
  case Nil
  with assms(1) show ?thesis by (simp add: remove_newlines_compact)
next
  case (Cons l0 rest)
  then have "l \<in> set (groups_from l0 (is_directive_line l0) rest)"
    using assms(2) remove_newlines_groups(2) by simp
  then show ?thesis
    using groups_not_blank [of l l0 "is_directive_line l0" rest] kept_lines_not_blank [of _ s] Cons
    by simp
qed

lemma split_nl_append_NL: "split_nl (xs @ NL # ys) = split_nl xs @ split_nl ys"
proof (induction xs)
  case Nil
  then show ?case by (simp add: split_nl_Cons)
next
  case (Cons c xs)
  obtain h t where "split_nl xs = h # t" by (cases "split_nl xs") simp_all
  then show ?case using Cons by (simp add: split_nl_Cons)
qed

lemma py_strip_Nil [simp]: "py_strip [] = []"
  by (simp add: py_strip_def)


section \<open>Python's lines of a text joined with line feeds\<close>

lemma CR_linebreak [simp]: "is_linebreak CR" "NL \<noteq> CR"
  by (simp_all add: is_linebreak_def CR_def NL_def)

lemma splitlines_from_append:
  "(\<And>c. c \<in> set l \<Longrightarrow> \<not> is_linebreak c) \<Longrightarrow>
   splitlines_from cur (l @ s) = splitlines_from (cur @ l) s"
proof (induction l arbitrary: cur)
  case Nil
  then show ?case by simp
next
  case (Cons c l)
  have c1: "\<not> is_linebreak c" using Cons.prems by simp
  then have c2: "c \<noteq> CR" using CR_linebreak(1) by auto
  note c = c1 c2
  show ?case
  proof (cases "l @ s")
    case Nil
    then show ?thesis using c by simp
  next
    case (Cons d r)
    have "splitlines_from (cur @ [c]) (l @ s) = splitlines_from ((cur @ [c]) @ l) s"
      using Cons.IH Cons.prems by simp
    then show ?thesis using c Cons by simp
  qed
qed

lemma splitlines_from_NL: "s \<noteq> [] \<Longrightarrow> splitlines_from cur (NL # s) = cur # splitlines_from [] s"
  by (cases s) simp_all

lemma join_nl_not_Nil: "ls \<noteq> [] \<Longrightarrow> hd ls \<noteq> [] \<Longrightarrow> join_nl ls \<noteq> []"
  by (induction ls rule: join_nl.induct) simp_all

lemma splitlines_join:
  "ls \<noteq> [] \<Longrightarrow> (\<And>l. l \<in> set ls \<Longrightarrow> l \<noteq> [] \<and> (\<forall>c \<in> set l. \<not> is_linebreak c)) \<Longrightarrow>
   splitlines (join_nl ls) = ls"
proof (induction ls rule: join_nl.induct)
  case 1
  then show ?case by simp
next
  case (2 l)
  have "\<not> is_linebreak c" if "c \<in> set l" for c
    using 2(2) [of l] that by simp
  then have "splitlines_from [] (l @ []) = splitlines_from ([] @ l) []"
    by (intro splitlines_from_append)
  then show ?case using 2 by (simp add: splitlines_def)
next
  case (3 l l' ls)
  have "splitlines (join_nl (l' # ls)) = l' # ls"
  proof (rule 3(1))
    show "l' # ls \<noteq> []" by simp
    fix x assume "x \<in> set (l' # ls)"
    then show "x \<noteq> [] \<and> (\<forall>c \<in> set x. \<not> is_linebreak c)" using 3(3) [of x] by simp
  qed
  then have ih: "splitlines_from [] (join_nl (l' # ls)) = l' # ls"
    by (simp add: splitlines_def)
  have ne: "join_nl (l' # ls) \<noteq> []"
    using 3(3) by (intro join_nl_not_Nil) simp_all
  have "\<not> is_linebreak c" if "c \<in> set l" for c
    using 3(3) [of l] that by simp
  then have "splitlines_from [] (l @ NL # join_nl (l' # ls)) =
        splitlines_from ([] @ l) (NL # join_nl (l' # ls))"
    by (intro splitlines_from_append)
  then show ?case using ih ne by (simp add: splitlines_def splitlines_from_NL)
qed

lemma not_blank_not_Nil: "py_strip l \<noteq> [] \<Longrightarrow> l \<noteq> []"
  by auto

lemma splitlines_remove_newlines:
  "splitlines (remove_newlines s) = (if kept_lines s = [] then [] else split_nl (remove_newlines s))"
proof (cases "kept_lines s")
  case Nil
  then show ?thesis by (simp add: remove_newlines_compact splitlines_def)
next
  case (Cons l0 rest)
  define G where "G = groups_from l0 (is_directive_line l0) rest"
  have "l \<noteq> [] \<and> (\<forall>c \<in> set l. \<not> is_linebreak c)" if "l \<in> set G" for l
  proof
    have "py_strip l \<noteq> []"
      using that groups_not_blank [of l l0 "is_directive_line l0" rest] kept_lines_not_blank [of _ s] Cons
      by (simp add: G_def)
    then show "l \<noteq> []" by auto
    show "\<forall>c \<in> set l. \<not> is_linebreak c"
    proof
      fix c assume "c \<in> set l"
      then have "c \<in> set l0 \<or> (\<exists>x \<in> set rest. c \<in> set x)"
        using that groups_chars unfolding G_def by blast
      then show "\<not> is_linebreak c" using kept_lines_clean [of _ s c] Cons by auto
    qed
  qed
  then have "splitlines (join_nl G) = G"
    by (intro splitlines_join) (simp_all add: G_def)
  then show ?thesis
    using Cons remove_newlines_groups [OF Cons] by (simp add: G_def)
qed

section \<open>The shape of the compactor's output\<close>

text \<open>
  C10: the output of the whitespace compactor never begins with a line feed,
  never has two line feeds in a row, and each of its lines has a character that
  is not whitespace, whether the lines are taken as Python's
  \<^verbatim>\<open>splitlines\<close> gives them or, for an output that is not empty, as the
  pieces between its line feeds; a text whose lines are all blank is compacted
  to the empty text.
\<close>

theorem remove_newlines_shape:
  "(remove_newlines s \<noteq> [] \<longrightarrow> hd (remove_newlines s) \<noteq> NL) \<and>
   \<not> (\<exists>pre post. remove_newlines s = pre @ NL # NL # post) \<and>
   (\<forall>l \<in> set (splitlines (remove_newlines s)). py_strip l \<noteq> []) \<and>
   (remove_newlines s \<noteq> [] \<longrightarrow> (\<forall>l \<in> set (split_nl (remove_newlines s)). py_strip l \<noteq> [])) \<and>
   ((\<forall>l \<in> set (splitlines s). py_strip l = []) \<longrightarrow> remove_newlines s = [])"
proof (intro conjI impI)
  assume ne: "remove_newlines s \<noteq> []"
  then obtain l0 rest where k: "kept_lines s = l0 # rest"
    by (cases "kept_lines s") (simp_all add: remove_newlines_compact)
  have "l0 \<noteq> []" using kept_lines_not_blank [of l0 s] k by auto
  then have "hd (remove_newlines s) = hd l0"
    using k by (simp add: remove_newlines_compact)
  moreover have "hd l0 \<in> set l0" using \<open>l0 \<noteq> []\<close> by simp
  moreover have "NL \<notin> set l0" using kept_lines_no_NL [of l0 s] k by simp
  ultimately show "hd (remove_newlines s) \<noteq> NL" by metis
next
  show "\<not> (\<exists>pre post. remove_newlines s = pre @ NL # NL # post)"
  proof
    assume "\<exists>pre post. remove_newlines s = pre @ NL # NL # post"
    then obtain pre post where eq: "remove_newlines s = pre @ NL # NL # post" by blast
    then have "split_nl (remove_newlines s) = split_nl pre @ [] # split_nl post"
      by (simp add: split_nl_append_NL split_nl_Cons)
    then have "[] \<in> set (split_nl (remove_newlines s))" by simp
    moreover have "remove_newlines s \<noteq> []" using eq by simp
    ultimately show False using remove_newlines_lines_not_blank [of s "[]"] by simp
  qed
next
  show "\<forall>l \<in> set (splitlines (remove_newlines s)). py_strip l \<noteq> []"
  proof (cases "kept_lines s = []")
    case True
    then show ?thesis by (simp add: splitlines_remove_newlines)
  next
    case False
    then have "remove_newlines s \<noteq> []"
      using kept_lines_not_blank [of "hd (kept_lines s)" s]
      by (cases "kept_lines s") (auto simp: remove_newlines_compact)
    then show ?thesis
      using False remove_newlines_lines_not_blank by (simp add: splitlines_remove_newlines)
  qed
next
  assume "remove_newlines s \<noteq> []"
  then show "\<forall>l \<in> set (split_nl (remove_newlines s)). py_strip l \<noteq> []"
    using remove_newlines_lines_not_blank by blast
next
  assume "\<forall>l \<in> set (splitlines s). py_strip l = []"
  then have "kept_lines s = []" by (simp add: kept_lines_def filter_empty_conv)
  then show "remove_newlines s = []" by (simp add: remove_newlines_compact)
qed

theorem remove_newlines_shape_witness:
  "remove_newlines (''  x '' @ [NL, NL] @ ''y'' @ [NL] @ ''#d'' @ [NL]) = ''  x '' @ [NL] @ ''y'' @ [NL] @ ''#d'' \<and>
   hd (remove_newlines (''  x '' @ [NL, NL] @ ''y'' @ [NL] @ ''#d'' @ [NL])) \<noteq> NL \<and>
   \<not> (\<exists>pre post. remove_newlines (''  x '' @ [NL, NL] @ ''y'' @ [NL] @ ''#d'' @ [NL]) = pre @ NL # NL # post) \<and>
   splitlines ([SP, NL, TAB]) = [[SP], [TAB]] \<and> py_strip [SP] = [] \<and> py_strip [TAB] = [] \<and>
   remove_newlines ([SP, NL, TAB]) = []"
proof -
  have e: "remove_newlines (''  x '' @ [NL, NL] @ ''y'' @ [NL] @ ''#d'' @ [NL]) = ''  x '' @ [NL] @ ''y'' @ [NL] @ ''#d''"
    by code_simp
  have b: "splitlines ([SP, NL, TAB]) = [[SP], [TAB]]" "py_strip [SP] = []" "py_strip [TAB] = []"
    by code_simp+
  show ?thesis
    using remove_newlines_shape [of "''  x '' @ [NL, NL] @ ''y'' @ [NL] @ ''#d'' @ [NL]"]
      remove_newlines_shape [of "[SP, NL, TAB]"] e b
    by simp
qed

section \<open>Directive lines stay alone\<close>

text \<open>
  C3: the whitespace compactor writes the kept lines one after the other; in
  front of a kept line that is not the first stands a line feed when that line,
  the one before it or the one behind it is a directive, and nothing otherwise.
  So every directive occupies an output line of its own: the output lines that
  are directives are exactly the kept lines that are directives, each one whole
  and joined to no other line.
\<close>

theorem directive_line_isolation:
  "remove_newlines s =
     concat (map (\<lambda>i. separator (kept_lines s) i @ kept_lines s ! i) [0..<length (kept_lines s)]) \<and>
   filter is_directive_line (split_nl (remove_newlines s)) =
     filter is_directive_line (kept_lines s)"
proof
  show "remove_newlines s =
     concat (map (\<lambda>i. separator (kept_lines s) i @ kept_lines s ! i) [0..<length (kept_lines s)])"
    by (rule remove_newlines_separators)
  show "filter is_directive_line (split_nl (remove_newlines s)) =
     filter is_directive_line (kept_lines s)"
  proof (cases "kept_lines s")
    case Nil
    then show ?thesis
      by (simp add: remove_newlines_compact is_directive_line_def py_lstrip_def startswith_hash_def)
  next
    case (Cons l0 rest)
    have "filter is_directive_line (groups_from l0 (is_directive_line l0) rest) =
          filter is_directive_line (l0 # rest)"
      using kept_lines_not_blank [of _ s] Cons by (intro groups_directives) simp_all
    then show ?thesis using remove_newlines_groups(2) [OF Cons] Cons by simp
  qed
qed


section \<open>Compaction and normalization, twice\<close>

lemma next_is_directive_map [simp]:
  "next_is_directive (map normalize_line ls) = next_is_directive ls"
  by (cases ls) (simp_all add: next_is_directive_def)

lemma all_separated_map [simp]:
  "all_separated pd (map normalize_line ls) = all_separated pd ls"
  by (induction ls arbitrary: pd) simp_all

lemma compact_rest_separated:
  "all_separated pd ls \<Longrightarrow> compact_rest pd ls = concat (map (\<lambda>l. NL # l) ls)"
  by (induction ls arbitrary: pd) auto

lemma join_nl_concat: "join_nl (g # ls) = g @ concat (map (\<lambda>l. NL # l) ls)"
  by (induction ls arbitrary: g) (simp_all add: join_nl_Cons)

lemma compact_separated:
  "all_separated (is_directive_line g) ls \<Longrightarrow> compact (g # ls) = join_nl (g # ls)"
  by (simp add: compact_rest_separated join_nl_concat)

lemma groups_head_directive:
  assumes "py_strip cur \<noteq> []"
  shows "is_directive_line (hd (groups_from cur pd ls)) = is_directive_line cur"
proof -
  obtain t G where "groups_from cur pd ls = (cur @ t) # G"
    using groups_head by blast
  then show ?thesis using directive_append [OF assms] by simp
qed

lemma groups_separated:
  "py_strip cur \<noteq> [] \<Longrightarrow> (\<And>l. l \<in> set ls \<Longrightarrow> py_strip l \<noteq> []) \<Longrightarrow>
   all_separated (is_directive_line cur) (tl (groups_from cur (is_directive_line cur) ls))"
proof (induction ls arbitrary: cur)
  case Nil
  then show ?case by simp
next
  case (Cons l ls)
  have l: "py_strip l \<noteq> []" and ls: "\<And>x. x \<in> set ls \<Longrightarrow> py_strip x \<noteq> []"
    using Cons.prems(2) by simp_all
  define G' where "G' = groups_from l (is_directive_line l) ls"
  show ?case
  proof (cases "is_directive_line l \<or> is_directive_line cur \<or> next_is_directive ls")
    case True
    obtain g1 Gs where G': "G' = g1 # Gs" by (cases G') (simp_all add: G'_def)
    have g1: "is_directive_line g1 = is_directive_line l"
      using groups_head_directive [OF l, of "is_directive_line l" ls] G' by (simp add: G'_def)
    have rest: "all_separated (is_directive_line l) Gs"
      using Cons.IH [OF l ls] G' by (simp add: G'_def)
    have first: "is_directive_line g1 \<or> is_directive_line cur \<or> next_is_directive Gs"
    proof (cases "is_directive_line l \<or> is_directive_line cur")
      case True
      then show ?thesis using g1 by auto
    next
      case False
      with True obtain n ls' where n: "ls = n # ls'" "is_directive_line n"
        by (cases ls) (auto simp: next_is_directive_def)
      have nb: "py_strip n \<noteq> []" using ls n by simp
      have "G' = l # groups_from n (is_directive_line n) ls'"
        using n by (simp add: G'_def)
      then have "Gs = groups_from n (is_directive_line n) ls'" using G' by simp
      then have "is_directive_line (hd Gs) = is_directive_line n" "Gs \<noteq> []"
        using groups_head_directive [OF nb] by simp_all
      then show ?thesis using n by (cases Gs) (simp_all add: next_is_directive_def)
    qed
    show ?thesis using True first rest g1 G' by (simp add: G'_def [symmetric])
  next
    case False
    then have dir: "is_directive_line (cur @ l) = is_directive_line l"
      using directive_append [OF Cons.prems(1), of l] by simp
    have "all_separated (is_directive_line (cur @ l))
            (tl (groups_from (cur @ l) (is_directive_line (cur @ l)) ls))"
      using not_blank_append [OF Cons.prems(1)] ls by (intro Cons.IH) simp_all
    then show ?thesis using False dir by simp
  qed
qed

lemma SP_not_linebreak [simp]: "\<not> is_linebreak SP"
  by (simp add: is_linebreak_def SP_def)

lemma normalize_line_Nil [simp]: "normalize_line [] = []"
proof -
  have "\<not> is_directive_line []"
    by (simp add: is_directive_line_def py_lstrip_def startswith_hash_def)
  moreover have "foldl strip_around [] symbols = []"
    using foldl_strip_set [of symbols "[]"] symbols_not_blank by simp
  ultimately show ?thesis by (simp add: normalize_other)
qed

lemma kept_lines_Nil [simp]: "kept_lines [] = []"
  by (simp add: kept_lines_def splitlines_def)

text \<open>The compacted and normalized text is a fixed point of both stages.\<close>

lemma compacted_normalized_fixed:
  assumes "kept_lines x = l0 # rest"
  defines "y \<equiv> normalize_spaces (remove_newlines x)"
  shows "remove_newlines y = y" and "normalize_spaces y = y"
proof -
  define G where "G = groups_from l0 (is_directive_line l0) rest"
  define M where "M = map normalize_line G"
  have l0: "py_strip l0 \<noteq> []" and rest: "\<And>l. l \<in> set rest \<Longrightarrow> py_strip l \<noteq> []"
    using kept_lines_not_blank [of _ x] assms(1) by simp_all
  have G_ne: "G \<noteq> []" by (simp add: G_def)
  have G_blank: "py_strip g \<noteq> []" if "g \<in> set G" for g
    using that groups_not_blank [of g l0 "is_directive_line l0" rest] l0 rest by (simp add: G_def)
  have G_clean: "\<not> is_linebreak c" if "g \<in> set G" "c \<in> set g" for g c
  proof -
    have "c \<in> set l0 \<or> (\<exists>l \<in> set rest. c \<in> set l)"
      using that groups_chars unfolding G_def by blast
    then show ?thesis using kept_lines_clean [of _ x c] assms(1) by auto
  qed
  have y: "y = join_nl M"
    using remove_newlines_groups(2) [OF assms(1)]
    by (simp add: y_def normalize_spaces_def M_def G_def)
  have M_ne: "M \<noteq> []" using G_ne by (simp add: M_def)
  have M_blank: "py_strip m \<noteq> []" if "m \<in> set M" for m
    using that G_blank by (auto simp: M_def)
  have M_clean: "\<not> is_linebreak c" if m: "m \<in> set M" and c: "c \<in> set m" for m c
  proof -
    obtain g where g: "g \<in> set G" "m = normalize_line g" using m by (auto simp: M_def)
    then have "c = SP \<or> c \<in> set g" using normalize_line_set [of g] c by auto
    then show ?thesis using G_clean [OF g(1)] by auto
  qed
  have M_no_NL: "NL \<notin> set m" if "m \<in> set M" for m
    using M_clean [OF that, of NL] by auto
  have M_some: "m \<noteq> []" if "m \<in> set M" for m
    using M_blank [OF that] by auto
  have "splitlines y = M"
    unfolding y using M_ne M_some M_clean by (intro splitlines_join) auto
  then have kept: "kept_lines y = M"
    using M_blank by (simp add: kept_lines_def filter_id_conv)
  obtain g0 Gs where G: "G = g0 # Gs" using G_ne by (cases G) simp_all
  have "all_separated (is_directive_line l0) Gs"
    using groups_separated [OF l0, of rest] rest G by (simp add: G_def)
  moreover have "is_directive_line g0 = is_directive_line l0"
    using groups_head_directive [OF l0, of "is_directive_line l0" rest] G by (simp add: G_def)
  ultimately have "all_separated (is_directive_line (normalize_line g0)) (map normalize_line Gs)"
    by simp
  then have "compact M = join_nl M"
    unfolding M_def G by (simp only: list.map compact_separated)
  then have "remove_newlines y = join_nl M"
    by (simp only: remove_newlines_compact kept)
  with y show "remove_newlines y = y" by simp
  have "split_nl (join_nl M) = M"
    using M_ne M_no_NL by (intro split_nl_join) auto
  moreover have "map normalize_line M = M"
    by (simp add: M_def normalize_line_idem)
  ultimately have "normalize_spaces (join_nl M) = join_nl M"
    by (simp add: normalize_spaces_def)
  with y show "normalize_spaces y = y" by simp
qed

text \<open>
  C2: compacting and normalizing a text that has been compacted and normalized
  changes nothing.
\<close>

theorem compact_normalize_idempotent:
  "normalize_spaces (remove_newlines (normalize_spaces (remove_newlines x))) =
   normalize_spaces (remove_newlines x)"
proof (cases "kept_lines x")
  case Nil
  then have "remove_newlines x = []" by (simp add: remove_newlines_compact)
  moreover have "normalize_spaces [] = []" by (simp add: normalize_spaces_def)
  moreover have "remove_newlines [] = []" by (simp add: remove_newlines_compact)
  ultimately show ?thesis by simp
next
  case (Cons l0 rest)
  then show ?thesis using compacted_normalized_fixed [OF Cons] by simp
qed


section \<open>The packaged output\<close>

lemma length_le_bytes [simp]: "length (le_bytes k n) = k"
  by (induction k arbitrary: n) simp_all

lemma unat_byte: "unat (of_nat (n mod 256) :: 8 word) = n mod 256"
  by (simp add: unat_of_nat)

lemma le_value_le_bytes: "le_value (le_bytes k n) = n mod 256 ^ k"
proof (induction k arbitrary: n)
  case 0
  then show ?case by simp
next
  case (Suc k)
  have "n mod 256 + 256 * (n div 256 mod 256 ^ k) = n mod (256 * 256 ^ k)"
    by (simp add: mod_mult2_eq)
  then show ?case using Suc by (simp add: unat_byte)
qed

lemma le_value_header: "n < 2 ^ 64 \<Longrightarrow> le_value (le_bytes 8 n) = n"
proof -
  assume "n < 2 ^ 64"
  moreover have "(256::nat) ^ 8 = 2 ^ 64" by simp
  ultimately show ?thesis by (simp add: le_value_le_bytes)
qed

text \<open>
  C5: the packager writes eight bytes, the little-endian number of bytes of the
  UTF-8 encoding of the text, and behind them the compressed bytes of that
  encoding; decompressing what stands behind the header and reading as many
  bytes as the header says gives the encoding back.  The compressor is the
  environment's: the theorem asks of it only that \<open>decompress\<close> inverts it.  A
  Python \<^verbatim>\<open>bytes\<close> object is shorter than \<open>2 ^ 64\<close>; at that length
  \<^verbatim>\<open>struct.pack\<close> would raise.
\<close>

theorem package_round_trip:
  assumes "\<And>b. decompress (zlib_compress e b) = b"
    and "length (utf8_encode T) < 2 ^ 64"
  shows "\<exists>header. compress_shader e T = Inr (header @ zlib_compress e (utf8_encode T)) \<and>
           length header = 8 \<and>
           header = le_bytes 8 (length (utf8_encode T)) \<and>
           le_value header = length (utf8_encode T) \<and>
           take (le_value header) (decompress (drop 8 (header @ zlib_compress e (utf8_encode T))))
             = utf8_encode T"
proof (intro exI conjI)
  let ?h = "le_bytes 8 (length (utf8_encode T))"
  show "compress_shader e T = Inr (?h @ zlib_compress e (utf8_encode T))"
    using assms(2) by (simp add: compress_shader_def pack_Q_def Let_def)
  show "length ?h = 8" by simp
  show "?h = le_bytes 8 (length (utf8_encode T))" by simp
  show v: "le_value ?h = length (utf8_encode T)"
    using assms(2) by (rule le_value_header)
  show "take (le_value ?h) (decompress (drop 8 (?h @ zlib_compress e (utf8_encode T)))) = utf8_encode T"
    using assms(1) v by simp
qed

lemma utf8_example: "utf8_encode [CHR 0xE9, CHR ''a''] = [0xC3, 0xA9, 0x61]"
  by (simp add: utf8_encode_def utf8_char_def)

theorem package_round_trip_witness:
  "\<exists>header. compress_shader (posix_env []) [CHR 0xE9, CHR ''a''] = Inr (header @ [0x78, 0xC3, 0xA9, 0x61]) \<and>
     length header = 8 \<and> le_value header = 3 \<and>
     take (le_value header) (tl (drop 8 (header @ [0x78, 0xC3, 0xA9, 0x61]))) = [0xC3, 0xA9, 0x61]"
proof -
  have inv: "\<And>b. tl (zlib_compress (posix_env []) b) = b"
    by (simp add: posix_env_def)
  have len: "length (utf8_encode [CHR 0xE9, CHR ''a'']) < 2 ^ 64"
    by (simp add: utf8_example)
  have z: "zlib_compress (posix_env []) [0xC3, 0xA9, 0x61] = [0x78, 0xC3, 0xA9, 0x61]"
    by (simp add: posix_env_def)
  show ?thesis
    using package_round_trip [of tl "posix_env []" "[CHR 0xE9, CHR ''a'']", OF inv len]
    by (auto simp: utf8_example z)
qed

section \<open>Compressing without an output file\<close>

text \<open>
  C7: when the compress flag is given and no output file (none, or an empty
  name), the program writes its diagnostic to the error stream and exits with
  status 1 before it reads any file: the outcome is the same in every
  environment, nothing is read, nothing is written.
\<close>

theorem compress_needs_output_file:
  assumes "compress a" and "output_file a = None \<or> output_file a = Some []"
  shows "main e a =
     \<lparr>exit_status = 1,
      stderr_lines = [''Error: Cannot output compressed data to stdout. Please specify an output file.''],
      stdout_text = [], written = None, files_read = []\<rparr> \<and>
     exit_status (main e a) \<noteq> 0 \<and> files_read (main e a) = [] \<and> main e a = main e' a"
  using assms by (auto simp: main_def no_output_file_def)

theorem compress_needs_output_file_witness:
  "exit_status (main (posix_env [(''/s/a.glsl'', File ''float x;'')])
       \<lparr>shader_path = ''/s/a.glsl'', output_file = None, compress = True\<rparr>) = 1 \<and>
   files_read (main (posix_env [(''/s/a.glsl'', File ''float x;'')])
       \<lparr>shader_path = ''/s/a.glsl'', output_file = None, compress = True\<rparr>) = [] \<and>
   files_read (main (posix_env [(''/s/a.glsl'', File ''float x;'')])
       \<lparr>shader_path = ''/s/a.glsl'', output_file = None, compress = False\<rparr>) = [''/s/a.glsl'']"
proof -
  have "files_read (main (posix_env [(''/s/a.glsl'', File ''float x;'')])
       \<lparr>shader_path = ''/s/a.glsl'', output_file = None, compress = False\<rparr>) = [''/s/a.glsl'']"
    by code_simp
  then show ?thesis
    using compress_needs_output_file
      [of "\<lparr>shader_path = ''/s/a.glsl'', output_file = None, compress = True\<rparr>"
          "posix_env [(''/s/a.glsl'', File ''float x;'')]"]
    by simp
qed


section \<open>One include directive\<close>

text \<open>
  What the resolver does at the first directive of a text, case by case: the
  stack is full, the path does not resolve, the path is in the include set, the
  question whether it is a file fails, the path is no file, the file cannot be
  read, the file is read and resolved.
\<close>

lemma process_from_none:
  "re_search m_include prev text = None \<Longrightarrow>
   process_from e depth prev text base_path st = (Inr text, st)"
  by (subst process_from.simps) simp

lemma process_from_deep:
  assumes "re_search m_include prev text = Some (pre, name, rest)"
    and "max_depth e \<le> depth"
  shows "process_from e depth prev text base_path st = (Inl RecursionError, st)"
  using assms by (subst process_from.simps) (simp add: Let_def)

lemma process_from_unresolved:
  assumes "re_search m_include prev text = Some (pre, name, rest)"
    and "depth < max_depth e"
    and "path_resolve e base_path name = Inl x"
  shows "process_from e depth prev text base_path st = (Inl x, st)"
  using assms by (subst process_from.simps) (simp add: Let_def)

lemma process_from_skip:
  assumes "re_search m_include prev text = Some (pre, name, rest)"
    and "depth < max_depth e"
    and "path_resolve e base_path name = Inr file_path"
    and "file_path \<in> included_files st"
  shows "process_from e depth prev text base_path st =
     then_text (\<lambda>out. pre @ out) (process_from e depth (Some (CHR 0x22)) rest base_path st)"
  using assms by (subst process_from.simps) (simp add: Let_def)

lemma process_from_unanswered:
  assumes "re_search m_include prev text = Some (pre, name, rest)"
    and "depth < max_depth e"
    and "path_resolve e base_path name = Inr file_path"
    and "file_path \<notin> included_files st"
    and "is_file e file_path = Inl x"
  shows "process_from e depth prev text base_path st = (Inl x, st)"
  using assms by (subst process_from.simps) (simp add: Let_def)

lemma process_from_missing:
  assumes "re_search m_include prev text = Some (pre, name, rest)"
    and "depth < max_depth e"
    and "path_resolve e base_path name = Inr file_path"
    and "file_path \<notin> included_files st"
    and "is_file e file_path = Inr False"
  shows "process_from e depth prev text base_path st =
     then_text (\<lambda>out. pre @ out)
       (process_from e depth (Some (CHR 0x22)) rest base_path
          (st\<lparr>err := err st @ [''Include not found: '' @ file_path]\<rparr>))"
  using assms by (subst process_from.simps) (simp add: Let_def)

lemma process_from_unreadable:
  assumes "re_search m_include prev text = Some (pre, name, rest)"
    and "depth < max_depth e"
    and "path_resolve e base_path name = Inr file_path"
    and "file_path \<notin> included_files st"
    and "is_file e file_path = Inr True"
    and "read_text e file_path = Inl x"
  shows "process_from e depth prev text base_path st =
     (Inl x, st\<lparr>included_files := insert file_path (included_files st),
                opened := opened st @ [file_path]\<rparr>)"
  using assms by (subst process_from.simps) (simp add: Let_def)

lemma process_from_file:
  assumes "re_search m_include prev text = Some (pre, name, rest)"
    and "depth < max_depth e"
    and "path_resolve e base_path name = Inr file_path"
    and "file_path \<notin> included_files st"
    and "is_file e file_path = Inr True"
    and "read_text e file_path = Inr content"
  shows "process_from e depth prev text base_path st =
     (case process_from e (Suc depth) None content (path_parent e file_path)
             (st\<lparr>included_files := insert file_path (included_files st),
                 opened := opened st @ [file_path]\<rparr>) of
        (Inl x, st1) \<Rightarrow> (Inl x, st1)
      | (Inr out, st1) \<Rightarrow>
          then_text (\<lambda>out'. pre @ (out @ [NL]) @ out')
            (process_from e depth (Some (CHR 0x22)) rest base_path st1))"
  using assms
  by (subst process_from.simps) (simp add: Let_def then_text_def split: prod.splits sum.splits)

text \<open>
  A relation between states that holds across every single change of the state
  holds from the state a resolution starts in to the state it ends in.
\<close>

lemma process_from_related:
  assumes same: "\<And>s. R s s"
    and chain: "\<And>s1 s2 s3. R s1 s2 \<Longrightarrow> R s2 s3 \<Longrightarrow> R s1 s3"
    and diag: "\<And>s m. R s (s\<lparr>err := err s @ [m]\<rparr>)"
    and enter: "\<And>s p. is_file e p = Inr True \<Longrightarrow>
                  R s (s\<lparr>included_files := insert p (included_files s), opened := opened s @ [p]\<rparr>)"
  shows "R st (snd (process_from e depth prev tx base_path st))"
  using enter
proof (induction e depth prev tx base_path st rule: process_from.induct)
  case (1 e depth prev tx base_path st)
  note enter' = "1.prems"
  show ?case
  proof (cases "re_search m_include prev tx")
    case None
    then show ?thesis using same by (simp add: process_from_none)
  next
    case (Some a)
    then obtain pre name rest where a: "re_search m_include prev tx = Some (pre, name, rest)"
      by (cases a) auto
    note inner = "1.IH"(1) [OF a refl refl]
    note behind = "1.IH"(2) [OF a refl refl refl]
    show ?thesis
    proof (cases "max_depth e \<le> depth")
      case True
      then show ?thesis using same by (simp add: process_from_deep [OF a])
    next
      case False
      then have d: "depth < max_depth e" by simp
      show ?thesis
      proof (cases "path_resolve e base_path name")
        case (Inl x)
        then show ?thesis using same by (simp add: process_from_unresolved [OF a d])
      next
        case (Inr fp)
        define st' where
          "st' = st\<lparr>included_files := insert fp (included_files st), opened := opened st @ [fp]\<rparr>"
        define line where "line = ''Include not found: '' @ fp"
        define st1 where "st1 = st\<lparr>err := err st @ [line]\<rparr>"
        have R1: "R st st1" unfolding st1_def by (rule diag)
        show ?thesis
        proof (cases "fp \<in> included_files st")
          case True
          have "R st (snd (process_from e depth (Some (CHR 0x22)) rest base_path st))"
            using behind [of "Inr []" st "[]", OF _ refl enter'] False Inr True by simp
          then show ?thesis
            by (simp add: process_from_skip [OF a d Inr True] snd_then_text)
        next
          case notin: False
          show ?thesis
          proof (cases "is_file e fp")
            case (Inl x)
            then show ?thesis
              using same by (simp add: process_from_unanswered [OF a d Inr notin])
          next
            case found: (Inr found)
            show ?thesis
            proof (cases found)
              case nofile: False
              have tail: "R st1 (snd (process_from e depth (Some (CHR 0x22)) rest base_path st1))"
                using behind [of "Inr []" st1 "[]", OF _ refl enter'] False Inr notin found nofile
                by (simp add: st1_def line_def)
              have step: "process_from e depth prev tx base_path st =
                  then_text (\<lambda>out. pre @ out)
                    (process_from e depth (Some (CHR 0x22)) rest base_path st1)"
                unfolding st1_def line_def
                using found nofile by (intro process_from_missing [OF a d Inr notin]) simp
              show ?thesis
                unfolding step using chain [OF R1 tail] by (simp add: snd_then_text)
            next
              case isfile: True
              have f: "is_file e fp = Inr True" using found isfile by simp
              have R': "R st st'" unfolding st'_def using f by (rule enter')
              show ?thesis
              proof (cases "read_text e fp")
                case (Inl x)
                have "process_from e depth prev tx base_path st = (Inl x, st')"
                  unfolding st'_def by (rule process_from_unreadable [OF a d Inr notin f Inl])
                then show ?thesis using R' by simp
              next
                case content: (Inr content)
                define r1 where
                  "r1 = process_from e (Suc depth) None content (path_parent e fp) st'"
                have in1: "R st' (snd r1)"
                  using inner [OF False Inr notin found _ content enter'] isfile
                  by (simp add: r1_def st'_def)
                have eq: "process_from e depth prev tx base_path st =
                    (case r1 of (Inl x, s1) \<Rightarrow> (Inl x, s1)
                     | (Inr out, s1) \<Rightarrow> then_text (\<lambda>out'. pre @ (out @ [NL]) @ out')
                          (process_from e depth (Some (CHR 0x22)) rest base_path s1))"
                  unfolding r1_def st'_def
                  by (rule process_from_file [OF a d Inr notin f content])
                show ?thesis
                proof (cases "fst r1")
                  case (Inl x)
                  then have "process_from e depth prev tx base_path st = (Inl x, snd r1)"
                    by (cases r1) (simp add: eq)
                  then show ?thesis using chain [OF R' in1] by simp
                next
                  case out: (Inr out)
                  then have r1: "r1 = (Inr out, snd r1)" by (cases r1) simp
                  have tt: "then_text (\<lambda>out. out @ [NL])
                      (process_from e (Suc depth) None content (path_parent e fp)
                         (st\<lparr>included_files := insert fp (included_files st),
                             opened := opened st @ [fp]\<rparr>)) = (Inr (out @ [NL]), snd r1)"
                    unfolding r1_def [unfolded st'_def, symmetric]
                    by (subst r1) (simp add: then_text_def)
                  have tail: "R (snd r1)
                      (snd (process_from e depth (Some (CHR 0x22)) rest base_path (snd r1)))"
                    using behind [of "Inr (out @ [NL])" "snd r1" "out @ [NL]", OF _ refl enter']
                      False Inr notin found isfile content tt
                    by simp
                  have "process_from e depth prev tx base_path st =
                      then_text (\<lambda>out'. pre @ (out @ [NL]) @ out')
                        (process_from e depth (Some (CHR 0x22)) rest base_path (snd r1))"
                    unfolding eq by (subst r1) simp
                  then show ?thesis
                    using chain [OF R' chain [OF in1 tail]] by (simp add: snd_then_text)
                qed
              qed
            qed
          qed
        qed
      qed
    qed
  qed
qed


text \<open>
  Only regular files come into the include set, so a path that is no file is
  never in the include set of a resolution that started with an empty one.
\<close>

lemma process_from_included_are_files:
  assumes "\<And>p. p \<in> included_files st \<Longrightarrow> is_file e p = Inr True"
    and "p \<in> included_files (snd (process_from e depth prev tx base_path st))"
  shows "is_file e p = Inr True"
proof -
  have "(\<forall>p \<in> included_files st. is_file e p = Inr True) \<longrightarrow>
        (\<forall>p \<in> included_files (snd (process_from e depth prev tx base_path st)).
           is_file e p = Inr True)"
    by (rule process_from_related
          [where R = "\<lambda>s s'. (\<forall>p \<in> included_files s. is_file e p = Inr True) \<longrightarrow>
                             (\<forall>p \<in> included_files s'. is_file e p = Inr True)"]) auto
  then show ?thesis using assms by blast
qed

section \<open>An include that is not found\<close>




section \<open>Include cycles\<close>

text \<open>
  The resolver returns on every file system, with a text or with the exception
  that ended it: its termination proof above covers every include graph,
  cyclic or not.  A directive whose path is in the include set contributes
  nothing (\<open>process_from_skip\<close>), and a file is in the include set while its
  own text is resolved, so a file that is inlined and includes itself is
  inlined once.
\<close>

lemma inlined_self_include:
  assumes "re_search m_include prev content = Some (pre, name, rest)"
    and "depth < max_depth e"
    and "path_resolve e dir name = Inr self" and "self \<in> included_files st"
  shows "process_from e depth prev content dir st =
     then_text (\<lambda>out. pre @ [] @ out) (process_from e depth (Some (CHR 0x22)) rest dir st)"
  using process_from_skip [OF assms] by simp

text \<open>
  The include set also bounds the nesting.  Every descent enters a regular file
  that was not in the include set and is in it from then on, so a resolution is
  never nested deeper than there are regular files outside the include set it
  started with: where the stack has room for that many,
  \<^verbatim>\<open>RecursionError\<close> is not raised, whatever includes what.
\<close>

lemma fst_then_text: "fst (then_text f res) = Inl x \<longleftrightarrow> fst res = Inl x"
  by (cases res) (auto simp: then_text_def split: sum.splits)

lemma is_file_raises: "is_file e p = Inl x \<Longrightarrow> x = OSError p"
  by (simp add: is_file_def split: if_splits)

lemma read_text_raises: "read_text e p = Inl x \<Longrightarrow> x = ReadError p"
  by (simp add: read_text_def split: option.splits node.splits)

lemma finite_regular_files: "finite {p. is_file e p = Inr True}"
proof (rule finite_subset)
  show "{p. is_file e p = Inr True} \<subseteq> dom (map_of (files e))"
    by (auto simp: is_file_def split: if_splits option.splits)
  show "finite (dom (map_of (files e)))" by (rule finite_dom_map_of)
qed

lemma process_from_included_grows:
  "included_files st \<subseteq> included_files (snd (process_from e depth prev tx base_path st))"
  by (rule process_from_related [where R = "\<lambda>s s'. included_files s \<subseteq> included_files s'"]) auto

lemma card_unvisited_less:
  assumes "is_file e p = Inr True" and "p \<notin> A"
  shows "card ({p. is_file e p = Inr True} - insert p A) < card ({p. is_file e p = Inr True} - A)"
proof (rule psubset_card_mono)
  show "finite ({p. is_file e p = Inr True} - A)"
    using finite_regular_files by (rule finite_Diff)
  show "{p. is_file e p = Inr True} - insert p A \<subset> {p. is_file e p = Inr True} - A"
    using assms by auto
qed

lemma card_unvisited_le:
  assumes "A \<subseteq> B"
  shows "card ({p. is_file e p = Inr True} - B) \<le> card ({p. is_file e p = Inr True} - A)"
proof (rule card_mono)
  show "finite ({p. is_file e p = Inr True} - A)"
    using finite_regular_files by (rule finite_Diff)
  show "{p. is_file e p = Inr True} - B \<subseteq> {p. is_file e p = Inr True} - A"
    using assms by auto
qed

lemma process_from_room:
  assumes "\<And>b n. path_resolve e b n \<noteq> Inl RecursionError"
    and "card ({p. is_file e p = Inr True} - included_files st) + depth < max_depth e"
  shows "fst (process_from e depth prev tx base_path st) \<noteq> Inl RecursionError"
  using assms
proof (induction e depth prev tx base_path st rule: process_from.induct)
  case (1 e depth prev tx base_path st)
  note res = "1.prems"(1)
  note room = "1.prems"(2)
  have d: "depth < max_depth e" using room by simp
  show ?case
  proof (cases "re_search m_include prev tx")
    case None
    then show ?thesis by (simp add: process_from_none)
  next
    case (Some a)
    then obtain pre name rest where a: "re_search m_include prev tx = Some (pre, name, rest)"
      by (cases a) auto
    have nd: "\<not> max_depth e \<le> depth" using d by simp
    note inner = "1.IH"(1) [OF a refl refl nd]
    note behind = "1.IH"(2) [OF a refl refl refl]
    show ?thesis
    proof (cases "path_resolve e base_path name")
      case (Inl x)
      then have "x \<noteq> RecursionError" using res [of base_path name] by auto
      then show ?thesis by (simp add: process_from_unresolved [OF a d Inl])
    next
      case (Inr fp)
      define st' where
        "st' = st\<lparr>included_files := insert fp (included_files st), opened := opened st @ [fp]\<rparr>"
      define line where "line = ''Include not found: '' @ fp"
      define st1 where "st1 = st\<lparr>err := err st @ [line]\<rparr>"
      show ?thesis
      proof (cases "fp \<in> included_files st")
        case True
        have "fst (process_from e depth (Some (CHR 0x22)) rest base_path st) \<noteq> Inl RecursionError"
          using behind [of "Inr []" st "[]", OF _ refl res room] nd Inr True by simp
        then show ?thesis
          by (simp add: process_from_skip [OF a d Inr True] fst_then_text)
      next
        case notin: False
        show ?thesis
        proof (cases "is_file e fp")
          case (Inl x)
          then have "x \<noteq> RecursionError" using is_file_raises by blast
          then show ?thesis by (simp add: process_from_unanswered [OF a d Inr notin Inl])
        next
          case found: (Inr found)
          show ?thesis
          proof (cases found)
            case nofile: False
            have room1: "card ({p. is_file e p = Inr True} - included_files st1) + depth < max_depth e"
              using room by (simp add: st1_def)
            have tail: "fst (process_from e depth (Some (CHR 0x22)) rest base_path st1)
                          \<noteq> Inl RecursionError"
              using behind [of "Inr []" st1 "[]", OF _ refl res room1] nd Inr notin found nofile
              by (simp add: st1_def line_def)
            have step: "process_from e depth prev tx base_path st =
                then_text (\<lambda>out. pre @ out)
                  (process_from e depth (Some (CHR 0x22)) rest base_path st1)"
              unfolding st1_def line_def
              using found nofile by (intro process_from_missing [OF a d Inr notin]) simp
            show ?thesis unfolding step using tail by (simp add: fst_then_text)
          next
            case isfile: True
            have f: "is_file e fp = Inr True" using found isfile by simp
            show ?thesis
            proof (cases "read_text e fp")
              case (Inl x)
              then have "x \<noteq> RecursionError" using read_text_raises by blast
              then show ?thesis
                by (simp add: process_from_unreadable [OF a d Inr notin f Inl])
            next
              case content: (Inr content)
              define r1 where
                "r1 = process_from e (Suc depth) None content (path_parent e fp) st'"
              have less: "card ({p. is_file e p = Inr True} - included_files st') <
                          card ({p. is_file e p = Inr True} - included_files st)"
                using card_unvisited_less [OF f notin] by (simp add: st'_def)
              then have room': "card ({p. is_file e p = Inr True} - included_files st') + Suc depth
                                  < max_depth e"
                using room by simp
              have in1: "fst r1 \<noteq> Inl RecursionError"
                using inner [OF Inr notin found _ content res] isfile room'
                by (simp add: r1_def st'_def)
              have eq: "process_from e depth prev tx base_path st =
                  (case r1 of (Inl x, s1) \<Rightarrow> (Inl x, s1)
                   | (Inr out, s1) \<Rightarrow> then_text (\<lambda>out'. pre @ (out @ [NL]) @ out')
                        (process_from e depth (Some (CHR 0x22)) rest base_path s1))"
                unfolding r1_def st'_def
                by (rule process_from_file [OF a d Inr notin f content])
              show ?thesis
              proof (cases "fst r1")
                case (Inl x)
                then have "process_from e depth prev tx base_path st = (Inl x, snd r1)"
                  by (cases r1) (simp add: eq)
                then show ?thesis using in1 Inl by simp
              next
                case out: (Inr out)
                then have r1: "r1 = (Inr out, snd r1)" by (cases r1) simp
                have tt: "then_text (\<lambda>out. out @ [NL])
                    (process_from e (Suc depth) None content (path_parent e fp)
                       (st\<lparr>included_files := insert fp (included_files st),
                           opened := opened st @ [fp]\<rparr>)) = (Inr (out @ [NL]), snd r1)"
                  unfolding r1_def [unfolded st'_def, symmetric]
                  by (subst r1) (simp add: then_text_def)
                have "included_files st' \<subseteq> included_files (snd r1)"
                  unfolding r1_def by (rule process_from_included_grows)
                then have "included_files st \<subseteq> included_files (snd r1)"
                  by (auto simp: st'_def)
                then have room2: "card ({p. is_file e p = Inr True} - included_files (snd r1)) + depth
                                   < max_depth e"
                  using card_unvisited_le [of "included_files st" "included_files (snd r1)" e] room
                  by simp
                have tail: "fst (process_from e depth (Some (CHR 0x22)) rest base_path (snd r1))
                             \<noteq> Inl RecursionError"
                  using behind [of "Inr (out @ [NL])" "snd r1" "out @ [NL]", OF _ refl res room2]
                    nd Inr notin found isfile content tt
                  by simp
                have "process_from e depth prev tx base_path st =
                    then_text (\<lambda>out'. pre @ (out @ [NL]) @ out')
                      (process_from e depth (Some (CHR 0x22)) rest base_path (snd r1))"
                  unfolding eq by (subst r1) simp
                then show ?thesis using tail by (simp add: fst_then_text)
              qed
            qed
          qed
        qed
      qed
    qed
  qed
qed

text \<open>
  C4 (the code at the failing input): \<^verbatim>\<open>process_shader\<close> starts the
  resolution of the top-level file with an empty include set, so the path of
  that file is not in it.  A top-level shader that includes itself is therefore
  inlined into itself once more: its text comes out twice, where the text with
  the reference to itself replaced by the empty string comes out once.
\<close>

theorem top_level_self_include_duplicates:
  "fst (process_includes (posix_env [(''/s/a.glsl'', File self_including)])
          self_including ''/s'' (start\<lparr>opened := [''/s/a.glsl'']\<rparr>))
     = Inr ([NL] @ ''float x;'' @ [NL, NL] @ ''float x;'') \<and>
   fst (process_includes (posix_env [(''/s/a.glsl'', File self_reference_removed)])
          self_reference_removed ''/s'' (start\<lparr>opened := [''/s/a.glsl'']\<rparr>))
     = Inr ([NL] @ ''float x;'') \<and>
   fst (process_shader (posix_env [(''/s/a.glsl'', File self_including)]) ''/s/a.glsl'')
     = Inr ''float x;float x;'' \<and>
   fst (process_shader (posix_env [(''/s/a.glsl'', File self_reference_removed)]) ''/s/a.glsl'')
     = Inr ''float x;''"
  by code_simp

end
